theory Spec2Isabelle
  imports Main "HOL-Library.Word" "HOL-Library.Signed_Division"
begin

section \<open>Machine integers of the Arduino Nano (ATmega328P)\<close>

text \<open>
  On the AVR target named in the sketch's header an \<open>int\<close> has 16 bits and a \<open>long\<close> has
  32 bits, both two's complement. Addition and subtraction are the word operations (they wrap
  around), comparisons are the signed ones (\<open>\<le>s\<close>, \<open><s\<close>), and \<open>/\<close> and \<open>%\<close> truncate
  towards zero. A zero divisor and an array index outside the array are faults of the model.
\<close>

type_synonym int16 = "16 word"
type_synonym long32 = "32 word"

datatype fault = DivisionByZero | IndexOutOfBounds

definition seq :: "fault + 'a \<Rightarrow> ('a \<Rightarrow> fault + 'b) \<Rightarrow> fault + 'b" where
  "seq m f = (case m of Inl e \<Rightarrow> Inl e | Inr x \<Rightarrow> f x)"

definition c_rem :: "'a::len word \<Rightarrow> 'a word \<Rightarrow> fault + 'a word" where
  "c_rem a b = (if b = 0 then Inl DivisionByZero else Inr (word_of_int (sint a smod sint b)))"

definition c_quot :: "'a::len word \<Rightarrow> 'a word \<Rightarrow> fault + 'a word" where
  "c_quot a b = (if b = 0 then Inl DivisionByZero else Inr (word_of_int (sint a sdiv sint b)))"

definition index :: "'a list \<Rightarrow> int16 \<Rightarrow> fault + 'a" where
  "index xs i =
     (if 0 \<le>s i \<and> nat (sint i) < length xs then Inr (xs ! nat (sint i)) else Inl IndexOutOfBounds)"

section \<open>Functions of the Arduino core library\<close>

text \<open>
  Modelled from the spec: \<open>map\<close>, \<open>constrain\<close> and \<open>random\<close> are functions of the
  Arduino core, which the sketch calls and does not define. The spec gives their interface
  only (two readings in \<open>[0, 1023]\<close> mapped to a step count in \<open>[1, 8]\<close> and a division
  index in \<open>[0, 4]\<close>, a clamp into \<open>[0, step_count - 1]\<close>, a random integer from \<open>0\<close>
  to \<open>step_count - 1\<close>); the bodies below are the core's own: \<open>map\<close> is
  \<^verbatim>\<open>(x - in_min) * (out_max - out_min) / (in_max - in_min) + out_min\<close> on \<open>long\<close>,
  \<open>constrain\<close> is the macro \<^verbatim>\<open>((amt)<(low)?(low):((amt)>(high)?(high):(amt)))\<close>,
  and \<open>random(howsmall, howbig)\<close> returns \<open>howsmall\<close> when \<open>howsmall >= howbig\<close> and
  otherwise \<open>random(howbig - howsmall) + howsmall\<close>, where \<open>random(howbig)\<close> is \<open>0\<close> for
  \<open>howbig = 0\<close> and \<open>random() % howbig\<close> otherwise. The raw draw of the C library's
  \<open>random()\<close> is the parameter \<open>r\<close>; the C library returns it in \<open>0 .. 2\<^sup>3\<^sup>1 - 1\<close>.
\<close>

definition map_long :: "long32 \<Rightarrow> long32 \<Rightarrow> long32 \<Rightarrow> long32 \<Rightarrow> long32 \<Rightarrow> fault + long32" where
  "map_long x in_min in_max out_min out_max =
     seq (c_quot ((x - in_min) * (out_max - out_min)) (in_max - in_min))
       (\<lambda>q. Inr (q + out_min))"

definition constrain :: "int16 \<Rightarrow> int16 \<Rightarrow> int16 \<Rightarrow> int16" where
  "constrain amt low high = (if amt <s low then low else if high <s amt then high else amt)"

definition random_max :: "long32 \<Rightarrow> long32 \<Rightarrow> long32" where
  "random_max howbig r = (if howbig = 0 then 0 else word_of_int (sint r smod sint howbig))"

definition random_range :: "long32 \<Rightarrow> long32 \<Rightarrow> long32 \<Rightarrow> long32" where
  "random_range howsmall howbig r =
     (if howbig \<le>s howsmall then howsmall else random_max (howbig - howsmall) r + howsmall)"

section \<open>The sketch's constants and state\<close>

definition NUM_OF_LEDS :: nat where
  "NUM_OF_LEDS = 8"

definition PIN_LED :: "nat list" where
  "PIN_LED = [2, 3, 4, 5, 6, 7, 8, 9]"

definition NUM_OF_CLOCK_DIVISIONS :: nat where
  "NUM_OF_CLOCK_DIVISIONS = 5"

definition clock_division :: "int16 list" where
  "clock_division = [1, 3, 6, 12, 24]"

definition blink_duration :: nat where
  "blink_duration = 20"

text \<open>
  What the sketch does to the outside world: a \<open>digitalWrite\<close> sets the level of a pin, a
  \<open>delay\<close> blocks for some milliseconds. Both are appended to a log, oldest first, so that
  a pulse of the built-in LED (pin 13 high, delay, pin 13 low) can be observed.
\<close>

datatype io_event = DigitalWrite nat bool | Delay nat

record sequencer =
  clock_counter :: int16
  step_counter :: int16
  play_mode :: int16
  is_playing :: bool
  pingpong_direction :: bool
  lastButtonState :: bool
  pins :: "nat \<Rightarrow> bool"
  io_log :: "io_event list"

definition digitalWrite :: "nat \<Rightarrow> bool \<Rightarrow> sequencer \<Rightarrow> sequencer" where
  "digitalWrite p v s = s\<lparr>pins := (pins s)(p := v), io_log := io_log s @ [DigitalWrite p v]\<rparr>"

definition delay :: "nat \<Rightarrow> sequencer \<Rightarrow> sequencer" where
  "delay ms s = s\<lparr>io_log := io_log s @ [Delay ms]\<rparr>"

text \<open>The globals' initialisers, with every output low and no button press seen.\<close>

definition initial :: sequencer where
  "initial = \<lparr>clock_counter = 0, step_counter = 0, play_mode = 0, is_playing = False,
     pingpong_direction = True, lastButtonState = True, pins = (\<lambda>p. False), io_log = []\<rparr>"

section \<open>The handlers\<close>

text \<open>\<open>light_up_current_step\<close>, lines 127 to 134.\<close>

definition light_up_current_step :: "sequencer \<Rightarrow> sequencer" where
  "light_up_current_step s =
     (let s1 = fold (\<lambda>i st. digitalWrite (PIN_LED ! i) (of_nat i = step_counter st) st)
                 [0..<NUM_OF_LEDS] s;
          s2 = digitalWrite 13 True s1;
          s3 = delay blink_duration s2
      in digitalWrite 13 False s3)"

text \<open>\<open>message_start\<close>, lines 112 to 118.\<close>

definition message_start :: "sequencer \<Rightarrow> sequencer" where
  "message_start s =
     light_up_current_step
       (s\<lparr>is_playing := True, step_counter := 0, clock_counter := 0, pingpong_direction := True\<rparr>)"

text \<open>\<open>message_stop\<close>, lines 120 to 125.\<close>

definition message_stop :: "sequencer \<Rightarrow> sequencer" where
  "message_stop s =
     fold (\<lambda>i st. digitalWrite (PIN_LED ! i) False st) [0..<NUM_OF_LEDS] (s\<lparr>is_playing := False\<rparr>)"

text \<open>
  The \<open>switch\<close> of \<open>message_clock\<close>, lines 89 to 105: one advance of the step under the
  play mode, for the mapped step count \<open>step_pot_mapped\<close> and the raw random draw \<open>r\<close>.
\<close>

definition advance :: "int16 \<Rightarrow> long32 \<Rightarrow> sequencer \<Rightarrow> fault + sequencer" where
  "advance step_pot_mapped r s =
     (if play_mode s = 1 then
        seq (c_rem (step_counter s - 1 + step_pot_mapped) step_pot_mapped)
          (\<lambda>v. Inr (s\<lparr>step_counter := v\<rparr>))
      else if play_mode s = 2 then
        (let s1 = s\<lparr>step_counter := step_counter s + (if pingpong_direction s then 1 else - 1)\<rparr>;
             s2 = (if step_pot_mapped - 1 \<le>s step_counter s1 \<or> step_counter s1 \<le>s 0
                   then s1\<lparr>pingpong_direction := \<not> pingpong_direction s1\<rparr> else s1)
         in Inr (s2\<lparr>step_counter := constrain (step_counter s2) 0 (step_pot_mapped - 1)\<rparr>))
      else if play_mode s = 3 then
        Inr (s\<lparr>step_counter := ucast (random_range 0 (scast step_pot_mapped) r)\<rparr>)
      else
        seq (c_rem (step_counter s + 1) step_pot_mapped)
          (\<lambda>v. Inr (s\<lparr>step_counter := v\<rparr>)))"

text \<open>
  \<open>message_clock\<close>, lines 80 to 110. The two \<open>analogRead\<close> results are the parameters
  \<open>step_pot_value\<close> and \<open>clock_pot_value\<close>; lines 81 to 82 and 83 to 84 map them, with
  the conversion from \<open>long\<close> back to \<open>int\<close>.
\<close>

definition read_step_pot_mapped :: "int16 \<Rightarrow> fault + int16" where
  "read_step_pot_mapped step_pot_value =
     seq (map_long (scast step_pot_value) 0 1023 1 (of_nat NUM_OF_LEDS)) (\<lambda>m. Inr (ucast m))"

definition read_clock_pot_mapped :: "int16 \<Rightarrow> fault + int16" where
  "read_clock_pot_mapped clock_pot_value =
     seq (map_long (scast clock_pot_value) 0 1023 (of_nat NUM_OF_CLOCK_DIVISIONS - 1) 0)
       (\<lambda>m. Inr (ucast m))"

definition message_clock :: "int16 \<Rightarrow> int16 \<Rightarrow> long32 \<Rightarrow> sequencer \<Rightarrow> fault + sequencer" where
  "message_clock step_pot_value clock_pot_value r s =
     seq (read_step_pot_mapped step_pot_value) (\<lambda>step_pot_mapped.
     seq (read_clock_pot_mapped clock_pot_value) (\<lambda>clock_pot_mapped.
     seq (index clock_division clock_pot_mapped) (\<lambda>clock_pot_selected.
     seq (c_rem (clock_counter s) clock_pot_selected) (\<lambda>phase.
     seq (if phase = 0
          then seq (if is_playing s then advance step_pot_mapped r s else Inr s)
                 (\<lambda>s1. Inr (light_up_current_step s1))
          else Inr s) (\<lambda>s2.
     Inr (s2\<lparr>clock_counter := clock_counter s2 + 1\<rparr>))))))"

text \<open>
  The button part of \<open>loop\<close>, lines 64 to 77. \<open>buttonState\<close> is the level read from the
  button pin: \<open>True\<close> is \<open>HIGH\<close> (released, the input has a pull-up), \<open>False\<close> is \<open>LOW\<close>.
\<close>

definition button_poll :: "bool \<Rightarrow> sequencer \<Rightarrow> fault + sequencer" where
  "button_poll buttonState s =
     seq (if lastButtonState s \<noteq> buttonState \<and> buttonState = False
          then (if is_playing s
                then seq (c_rem (play_mode s + 1) 4) (\<lambda>m.
                       Inr (if m = 2 then s\<lparr>play_mode := m, pingpong_direction := True\<rparr>
                            else s\<lparr>play_mode := m\<rparr>))
                else seq (c_rem (step_counter s + 1) (of_nat NUM_OF_LEDS)) (\<lambda>v.
                       Inr (light_up_current_step (s\<lparr>step_counter := v\<rparr>))))
          else Inr s)
       (\<lambda>s1. Inr (s1\<lparr>lastButtonState := buttonState\<rparr>))"

text \<open>
  \<open>MIDI.read()\<close> hands at most one transport message to its handler; \<open>loop\<close>, lines 61
  to 78, reads the MIDI input and then polls the button.
\<close>

datatype midi_message = Clock | Start | Stop

record inputs =
  midi :: "midi_message option"
  step_pot :: int16
  clock_pot :: int16
  raw_random :: long32
  button :: bool

definition MIDI_read :: "inputs \<Rightarrow> sequencer \<Rightarrow> fault + sequencer" where
  "MIDI_read inp s =
     (case midi inp of
        None \<Rightarrow> Inr s
      | Some Clock \<Rightarrow> message_clock (step_pot inp) (clock_pot inp) (raw_random inp) s
      | Some Start \<Rightarrow> Inr (message_start s)
      | Some Stop \<Rightarrow> Inr (message_stop s))"

definition loop :: "inputs \<Rightarrow> sequencer \<Rightarrow> fault + sequencer" where
  "loop inp s = seq (MIDI_read inp s) (button_poll (button inp))"

fun run :: "inputs list \<Rightarrow> sequencer \<Rightarrow> fault + sequencer" where
  "run [] s = Inr s"
| "run (inp # inps) s = seq (loop inp s) (run inps)"

text \<open>
  What the hardware and the C library guarantee of the inputs of one pass: both analog
  readings are in \<open>[0, 1023]\<close> and the raw random draw is not negative.
\<close>

definition inputs_ok :: "inputs \<Rightarrow> bool" where
  "inputs_ok inp =
     (0 \<le> sint (step_pot inp) \<and> sint (step_pot inp) \<le> 1023
      \<and> 0 \<le> sint (clock_pot inp) \<and> sint (clock_pot inp) \<le> 1023
      \<and> 0 \<le> sint (raw_random inp))"

section \<open>Observing the outputs\<close>

text \<open>
  The output events of one call of \<open>light_up_current_step\<close> at step \<open>k\<close>: every step
  output is written, high for the output of step \<open>k\<close> and low for the others, and the built-in
  LED is pulsed for \<open>blink_duration\<close> milliseconds.
\<close>

definition notify_events :: "int16 \<Rightarrow> io_event list" where
  "notify_events k =
     map (\<lambda>i. DigitalWrite (PIN_LED ! i) (of_nat i = k)) [0..<NUM_OF_LEDS]
     @ [DigitalWrite 13 True, Delay blink_duration, DigitalWrite 13 False]"

text \<open>
  A run of clock ticks, each with its two readings and its random draw. For every tick the
  trace records whether the tick reached the output (the log grew) and the step afterwards.
\<close>

fun tick_trace :: "(int16 \<times> int16 \<times> long32) list \<Rightarrow> sequencer \<Rightarrow> fault + (bool \<times> int16) list" where
  "tick_trace [] s = Inr []"
| "tick_trace ((sp, cp, r) # ticks) s =
     seq (message_clock sp cp r s) (\<lambda>s'.
     seq (tick_trace ticks s') (\<lambda>tr.
     Inr ((io_log s' \<noteq> io_log s, step_counter s') # tr)))"

section \<open>Signed 16-bit and 32-bit arithmetic\<close>

lemma sint16_of_int: "- 32768 \<le> k \<Longrightarrow> k < 32768 \<Longrightarrow> sint (word_of_int k :: int16) = k"
  by (simp add: sint_sbintrunc' signed_take_bit_int_eq_self)

lemma sint_add16:
  "- 32768 \<le> sint a + sint b \<Longrightarrow> sint a + sint b < 32768
   \<Longrightarrow> sint (a + b :: int16) = sint a + sint b"
  by (simp add: sint_word_add signed_take_bit_int_eq_self)

lemma sint_sub16:
  "- 32768 \<le> sint a - sint b \<Longrightarrow> sint a - sint b < 32768
   \<Longrightarrow> sint (a - b :: int16) = sint a - sint b"
  by (simp add: sint_word_diff signed_take_bit_int_eq_self)

lemma sint_mult32:
  "- 2147483648 \<le> sint a * sint b \<Longrightarrow> sint a * sint b < 2147483648
   \<Longrightarrow> sint (a * b :: long32) = sint a * sint b"
  by (simp add: sint_word_mult signed_take_bit_int_eq_self)

lemma sint_scast_16_32: "sint (scast (v :: int16) :: long32) = sint v"
  by (rule sint_up_scast) (simp add: is_up)

lemma ucast_32_16: "(ucast (word_of_int k :: long32) :: int16) = word_of_int k"
  by (rule ucast_down_wi) (simp add: is_down)

lemma smod_nonneg: "0 \<le> a \<Longrightarrow> 0 < b \<Longrightarrow> (a :: int) smod b = a mod b"
  by (simp add: signed_modulo_int_def sgn_if)

lemma sdiv_nonneg: "0 \<le> a \<Longrightarrow> 0 < b \<Longrightarrow> (a :: int) sdiv b = a div b"
  by (simp add: signed_divide_int_def sgn_if)

lemma sdiv_nonpos: "a \<le> 0 \<Longrightarrow> 0 < b \<Longrightarrow> (a :: int) sdiv b = - ((- a) div b)"
  by (simp add: signed_divide_int_def sgn_if)

lemma smod_eq_0_iff: "0 < b \<Longrightarrow> ((a :: int) smod b = 0) = (a mod b = 0)"
  by (auto simp: signed_modulo_int_def sgn_if mod_eq_0_iff_dvd)

lemma smod_abs_less: "0 < b \<Longrightarrow> \<bar>(a :: int) smod b\<bar> < b"
  by (auto simp: signed_modulo_int_def sgn_if abs_mult)

text \<open>On a non-negative dividend and a positive divisor, C's \<open>%\<close> is the mathematical \<open>mod\<close>.\<close>

lemma c_rem_nonneg:
  fixes a b :: int16
  assumes "0 \<le> sint a" "0 < sint b"
  shows "\<exists>v. c_rem a b = Inr v \<and> sint v = sint a mod sint b"
proof -
  have b0: "b \<noteq> 0" using assms(2) by auto
  have m: "0 \<le> sint a mod sint b" "sint a mod sint b < sint b"
    using assms(2) by simp_all
  have "sint b < 32768" using sint_lt [of b] by simp
  with m have "sint (word_of_int (sint a mod sint b) :: int16) = sint a mod sint b"
    by (intro sint16_of_int) linarith+
  then show ?thesis using b0 assms by (simp add: c_rem_def smod_nonneg)
qed

text \<open>Whatever the sign of the dividend, C's \<open>%\<close> is zero exactly when the divisor divides it.\<close>

lemma c_rem_phase:
  fixes a d :: int16
  assumes "0 < sint d"
  shows "\<exists>p. c_rem a d = Inr p \<and> (p = 0) = (sint a mod sint d = 0)"
proof -
  let ?x = "sint a smod sint d"
  have d0: "d \<noteq> 0" using assms by auto
  have "sint d < 32768" using sint_lt [of d] by simp
  with smod_abs_less [OF assms, of "sint a"] have "- 32768 \<le> ?x" "?x < 32768" by linarith+
  then have sx: "sint (word_of_int ?x :: int16) = ?x" by (rule sint16_of_int)
  have "(word_of_int ?x = (0 :: int16)) = (?x = 0)"
  proof
    assume "word_of_int ?x = (0 :: int16)"
    then have "sint (word_of_int ?x :: int16) = 0" by simp
    with sx show "?x = 0" by simp
  next
    assume "?x = 0" then show "word_of_int ?x = (0 :: int16)" by simp
  qed
  then show ?thesis using d0 assms by (simp add: c_rem_def smod_eq_0_iff)
qed

lemma sint16_cases_0_4:
  assumes "0 \<le> sint (i :: int16)" "sint i \<le> 4"
  shows "i = 0 \<or> i = 1 \<or> i = 2 \<or> i = 3 \<or> i = 4"
proof -
  have "sint i = 0 \<or> sint i = 1 \<or> sint i = 2 \<or> sint i = 3 \<or> sint i = 4"
    using assms by linarith
  then have "word_of_int (sint i) = (0 :: int16) \<or> word_of_int (sint i) = (1 :: int16)
    \<or> word_of_int (sint i) = (2 :: int16) \<or> word_of_int (sint i) = (3 :: int16)
    \<or> word_of_int (sint i) = (4 :: int16)"
    by (elim disjE) (simp_all only: word_of_int_0 word_of_int_1 word_of_int_numeral simp_thms)
  then show ?thesis by simp
qed

section \<open>The two potentiometer mappings\<close>

lemma read_step_pot_mapped_eq:
  assumes "0 \<le> sint v" "sint v \<le> 1023"
  shows "\<exists>n. read_step_pot_mapped v = Inr n \<and> sint n = sint v * 7 div 1023 + 1"
proof -
  let ?k = "sint v * 7 div 1023"
  have k: "0 \<le> ?k" "?k \<le> 7" using assms by simp_all
  have p: "sint ((scast v :: long32) * 7) = sint v * 7"
    using assms by (subst sint_mult32) (simp_all add: sint_scast_16_32)
  then have "c_quot ((scast v :: long32) * 7) 1023 = Inr (word_of_int ?k)"
    using assms by (simp add: c_quot_def sdiv_nonneg)
  then have "map_long (scast v) 0 1023 1 (of_nat NUM_OF_LEDS) = Inr (word_of_int (?k + 1))"
    by (simp add: map_long_def seq_def NUM_OF_LEDS_def)
  then have "read_step_pot_mapped v = Inr (word_of_int (?k + 1))"
    by (simp only: read_step_pot_mapped_def seq_def sum.case ucast_32_16)
  moreover have "sint (word_of_int (?k + 1) :: int16) = ?k + 1"
    using k by (intro sint16_of_int) linarith+
  ultimately show ?thesis by blast
qed

lemma read_clock_pot_mapped_eq:
  assumes "0 \<le> sint v" "sint v \<le> 1023"
  shows "\<exists>i. read_clock_pot_mapped v = Inr i \<and> sint i = 4 - sint v * 4 div 1023"
proof -
  let ?k = "sint v * 4 div 1023"
  have k: "0 \<le> ?k" "?k \<le> 4" using assms by simp_all
  have p: "sint ((scast v :: long32) * - 4) = - (sint v * 4)"
    using assms by (subst sint_mult32) (simp_all add: sint_scast_16_32)
  then have "c_quot ((scast v :: long32) * - 4) 1023 = Inr (word_of_int (- ?k))"
    using assms by (simp add: c_quot_def sdiv_nonpos sdiv_nonneg)
  then have "map_long (scast v) 0 1023 (of_nat NUM_OF_CLOCK_DIVISIONS - 1) 0
               = Inr (word_of_int (4 - ?k))"
    by (simp add: map_long_def seq_def NUM_OF_CLOCK_DIVISIONS_def)
  then have "read_clock_pot_mapped v = Inr (word_of_int (4 - ?k))"
    by (simp only: read_clock_pot_mapped_def seq_def sum.case ucast_32_16)
  moreover have "sint (word_of_int (4 - ?k) :: int16) = 4 - ?k"
    using k by (intro sint16_of_int) linarith+
  ultimately show ?thesis by blast
qed

lemma index_clock_division:
  assumes "0 \<le> sint i" "sint i \<le> 4"
  shows "\<exists>d. index clock_division i = Inr d \<and> sint d = [1, 3, 6, 12, 24] ! nat (sint i)
           \<and> 0 < sint d"
  using sint16_cases_0_4 [OF assms]
  by (elim disjE) (simp_all add: index_def clock_division_def word_sle_eq)

section \<open>The output handlers, in closed form\<close>

lemma light_up_current_step_eq:
  "light_up_current_step s =
     s\<lparr>pins := (pins s)
         (2 := step_counter s = 0, 3 := step_counter s = 1, 4 := step_counter s = 2,
          5 := step_counter s = 3, 6 := step_counter s = 4, 7 := step_counter s = 5,
          8 := step_counter s = 6, 9 := step_counter s = 7, 13 := False),
       io_log := io_log s @ notify_events (step_counter s)\<rparr>"
  by (simp add: light_up_current_step_def notify_events_def NUM_OF_LEDS_def upt_conv_Cons
      PIN_LED_def digitalWrite_def delay_def)

lemma message_stop_eq:
  "message_stop s =
     s\<lparr>is_playing := False,
       pins := (pins s)
         (2 := False, 3 := False, 4 := False, 5 := False, 6 := False, 7 := False,
          8 := False, 9 := False),
       io_log := io_log s @ map (\<lambda>i. DigitalWrite (PIN_LED ! i) False) [0..<NUM_OF_LEDS]\<rparr>"
  by (simp add: message_stop_def NUM_OF_LEDS_def upt_conv_Cons PIN_LED_def digitalWrite_def)

lemma notify_events_not_Nil: "notify_events k \<noteq> []"
  by (simp add: notify_events_def)

section \<open>One advance, mode by mode\<close>

lemma advance_reverse:
  assumes "play_mode s = 1" "1 \<le> sint n" "sint n \<le> 8"
    "0 \<le> sint (step_counter s)" "sint (step_counter s) < 8"
  shows "\<exists>v. advance n r s = Inr (s\<lparr>step_counter := v\<rparr>)
           \<and> sint v = (sint (step_counter s) - 1 + sint n) mod sint n"
proof -
  have "sint (step_counter s - 1) = sint (step_counter s) - 1"
    using assms by (subst sint_sub16) simp_all
  then have a: "sint (step_counter s - 1 + n) = sint (step_counter s) - 1 + sint n"
    using assms by (subst sint_add16) simp_all
  have "\<exists>v. c_rem (step_counter s - 1 + n) n = Inr v
          \<and> sint v = sint (step_counter s - 1 + n) mod sint n"
    using assms a by (intro c_rem_nonneg) simp_all
  then show ?thesis using assms(1) a by (auto simp: advance_def seq_def)
qed

lemma advance_forward:
  assumes "play_mode s \<noteq> 1" "play_mode s \<noteq> 2" "play_mode s \<noteq> 3"
    "1 \<le> sint n" "sint n \<le> 8" "0 \<le> sint (step_counter s)" "sint (step_counter s) < 8"
  shows "\<exists>v. advance n r s = Inr (s\<lparr>step_counter := v\<rparr>)
           \<and> sint v = (sint (step_counter s) + 1) mod sint n"
proof -
  have a: "sint (step_counter s + 1) = sint (step_counter s) + 1"
    using assms by (subst sint_add16) simp_all
  have "\<exists>v. c_rem (step_counter s + 1) n = Inr v \<and> sint v = sint (step_counter s + 1) mod sint n"
    using assms a by (intro c_rem_nonneg) simp_all
  then show ?thesis using assms(1-3) a by (auto simp: advance_def seq_def)
qed

lemma random_range_bounds:
  assumes "1 \<le> sint (n :: int16)" "sint n \<le> 8" "0 \<le> sint r"
  shows "sint (ucast (random_range 0 (scast n) r) :: int16) = sint r mod sint n"
proof -
  have n32: "sint (scast n :: long32) = sint n" by (rule sint_scast_16_32)
  have pos: "\<not> (scast n :: long32) \<le>s 0" using assms n32 by (simp add: word_sle_eq)
  have nz: "(scast n :: long32) \<noteq> 0" using assms n32 by auto
  have m: "0 \<le> sint r mod sint n" "sint r mod sint n < sint n" using assms by simp_all
  have "random_range 0 (scast n) r = word_of_int (sint r mod sint n)"
    using pos nz assms by (simp add: random_range_def random_max_def n32 smod_nonneg)
  then have "(ucast (random_range 0 (scast n) r) :: int16) = word_of_int (sint r mod sint n)"
    by (simp only: ucast_32_16)
  moreover have "sint (word_of_int (sint r mod sint n) :: int16) = sint r mod sint n"
    using m assms by (intro sint16_of_int) linarith+
  ultimately show ?thesis by simp
qed

lemma advance_random:
  assumes "play_mode s = 3"
  shows "advance n r s = Inr (s\<lparr>step_counter := ucast (random_range 0 (scast n) r)\<rparr>)"
  using assms by (simp add: advance_def)

lemma advance_pingpong:
  assumes "play_mode s = 2" "1 \<le> sint n" "sint n \<le> 8"
    "0 \<le> sint (step_counter s)" "sint (step_counter s) < 8"
  shows "\<exists>s'. advance n r s = Inr s'
           \<and> s' = s\<lparr>step_counter := step_counter s', pingpong_direction := pingpong_direction s'\<rparr>
           \<and> sint (step_counter s') =
               max 0 (min (sint n - 1)
                 (sint (step_counter s) + (if pingpong_direction s then 1 else - 1)))
           \<and> pingpong_direction s' =
               (if sint n - 1 \<le> sint (step_counter s) + (if pingpong_direction s then 1 else - 1)
                   \<or> sint (step_counter s) + (if pingpong_direction s then 1 else - 1) \<le> 0
                then \<not> pingpong_direction s else pingpong_direction s)"
proof -
  have a: "sint (step_counter s + 1) = sint (step_counter s) + 1"
    using assms by (subst sint_add16) simp_all
  have b: "sint (step_counter s - 1) = sint (step_counter s) - 1"
    using assms by (subst sint_sub16) simp_all
  have c: "sint (n - 1) = sint n - 1"
    using assms by (subst sint_sub16) simp_all
  show ?thesis
    using assms a b c
    by (cases "pingpong_direction s")
       (auto simp: advance_def constrain_def Let_def word_sle_eq word_sless_alt)
qed

text \<open>With a non-zero step count the switch never faults, and it writes to nothing but the
  step and the ping-pong direction.\<close>

lemma advance_total:
  assumes "n \<noteq> 0"
  shows "\<exists>s'. advance n r s = Inr s'
           \<and> s' = s\<lparr>step_counter := step_counter s', pingpong_direction := pingpong_direction s'\<rparr>"
  using assms by (auto simp: advance_def c_rem_def seq_def Let_def)

text \<open>The switch leaves every other variable and the outputs alone.\<close>

lemma advance_frame:
  assumes "advance n r s = Inr s'"
  shows "play_mode s' = play_mode s" "is_playing s' = is_playing s"
    "clock_counter s' = clock_counter s" "lastButtonState s' = lastButtonState s"
    "pins s' = pins s" "io_log s' = io_log s"
  using assms
  by (auto simp: advance_def c_rem_def seq_def Let_def split: if_splits)

text \<open>Every branch of the switch lands inside the step count.\<close>

lemma advance_range:
  assumes "1 \<le> sint n" "sint n \<le> 8"
    "0 \<le> sint (step_counter s)" "sint (step_counter s) < 8" "0 \<le> sint r"
  shows "\<exists>s'. advance n r s = Inr s'
           \<and> 0 \<le> sint (step_counter s') \<and> sint (step_counter s') < sint n"
proof -
  consider (reverse) "play_mode s = 1" | (pingpong) "play_mode s = 2" | (random) "play_mode s = 3"
    | (forward) "play_mode s \<noteq> 1" "play_mode s \<noteq> 2" "play_mode s \<noteq> 3"
    by blast
  then show ?thesis
  proof cases
    case reverse
    from advance_reverse [OF reverse assms(1-4), of r] obtain v
      where "advance n r s = Inr (s\<lparr>step_counter := v\<rparr>)"
        "sint v = (sint (step_counter s) - 1 + sint n) mod sint n" by blast
    then show ?thesis using assms(1) by simp
  next
    case pingpong
    from advance_pingpong [OF pingpong assms(1-4), of r] obtain s'
      where "advance n r s = Inr s'"
        "sint (step_counter s') =
           max 0 (min (sint n - 1)
             (sint (step_counter s) + (if pingpong_direction s then 1 else - 1)))" by blast
    then show ?thesis using assms(1) by auto
  next
    case random
    show ?thesis
      using assms(1) by (simp add: advance_random [OF random] random_range_bounds [OF assms(1,2,5)])
  next
    case forward
    from advance_forward [OF forward assms(1-4), of r] obtain v
      where "advance n r s = Inr (s\<lparr>step_counter := v\<rparr>)"
        "sint v = (sint (step_counter s) + 1) mod sint n" by blast
    then show ?thesis using assms(1) by simp
  qed
qed

section \<open>The tick handler, with both mappings resolved\<close>

lemma clock_counter_light_up [simp]:
  "clock_counter (light_up_current_step t) = clock_counter t"
  by (simp add: light_up_current_step_eq)

lemma message_clock_eq:
  assumes "0 \<le> sint sp" "sint sp \<le> 1023" "0 \<le> sint cp" "sint cp \<le> 1023"
  shows "\<exists>n i d. read_step_pot_mapped sp = Inr n \<and> sint n = sint sp * 7 div 1023 + 1
           \<and> read_clock_pot_mapped cp = Inr i \<and> sint i = 4 - sint cp * 4 div 1023
           \<and> index clock_division i = Inr d \<and> sint d = [1, 3, 6, 12, 24] ! nat (sint i)
           \<and> message_clock sp cp r s =
               (if sint (clock_counter s) mod sint d = 0
                then seq (if is_playing s then advance n r s else Inr s)
                       (\<lambda>s1. Inr ((light_up_current_step s1)\<lparr>clock_counter := clock_counter s1 + 1\<rparr>))
                else Inr (s\<lparr>clock_counter := clock_counter s + 1\<rparr>))"
proof -
  obtain n where n: "read_step_pot_mapped sp = Inr n" "sint n = sint sp * 7 div 1023 + 1"
    using read_step_pot_mapped_eq [OF assms(1,2)] by blast
  obtain i where i: "read_clock_pot_mapped cp = Inr i" "sint i = 4 - sint cp * 4 div 1023"
    using read_clock_pot_mapped_eq [OF assms(3,4)] by blast
  have "0 \<le> sint i" "sint i \<le> 4" using i(2) assms(3,4) by simp_all
  then obtain d where d: "index clock_division i = Inr d"
    "sint d = [1, 3, 6, 12, 24] ! nat (sint i)" "0 < sint d"
    using index_clock_division by blast
  obtain p where p: "c_rem (clock_counter s) d = Inr p"
    "(p = 0) = (sint (clock_counter s) mod sint d = 0)"
    using c_rem_phase [OF d(3)] by blast
  have "message_clock sp cp r s =
               (if sint (clock_counter s) mod sint d = 0
                then seq (if is_playing s then advance n r s else Inr s)
                       (\<lambda>s1. Inr ((light_up_current_step s1)\<lparr>clock_counter := clock_counter s1 + 1\<rparr>))
                else Inr (s\<lparr>clock_counter := clock_counter s + 1\<rparr>))"
    using n(1) i(1) d(1) p by (auto simp: message_clock_def seq_def split: sum.splits)
  then show ?thesis using n i d by blast
qed

section \<open>One tick and runs of ticks\<close>

text \<open>What one tick does, at readings in range: the divider's decision, the counter, and
  the state when the gate is closed and when it is open.\<close>

lemma io_log_light_up_neq: "io_log (light_up_current_step t) \<noteq> io_log t"
  by (simp add: light_up_current_step_eq notify_events_not_Nil)

lemma tick_gate:
  assumes "0 \<le> sint sp" "sint sp \<le> 1023" "0 \<le> sint cp" "sint cp \<le> 1023"
  shows "\<exists>n i d s'. read_step_pot_mapped sp = Inr n \<and> read_clock_pot_mapped cp = Inr i
           \<and> index clock_division i = Inr d
           \<and> message_clock sp cp r s = Inr s'
           \<and> clock_counter s' = clock_counter s + 1
           \<and> (io_log s' \<noteq> io_log s) = (sint (clock_counter s) mod sint d = 0)
           \<and> (sint (clock_counter s) mod sint d \<noteq> 0
                \<longrightarrow> s' = s\<lparr>clock_counter := clock_counter s + 1\<rparr>)
           \<and> (sint (clock_counter s) mod sint d = 0
                \<longrightarrow> (\<exists>s1. (if is_playing s then advance n r s else Inr s) = Inr s1
                       \<and> s' = (light_up_current_step s1)\<lparr>clock_counter := clock_counter s + 1\<rparr>))"
proof -
  from message_clock_eq [OF assms, of r s] obtain n i d where
    n: "read_step_pot_mapped sp = Inr n" "sint n = sint sp * 7 div 1023 + 1" and
    i: "read_clock_pot_mapped cp = Inr i" and
    d: "index clock_division i = Inr d" and
    m: "message_clock sp cp r s =
               (if sint (clock_counter s) mod sint d = 0
                then seq (if is_playing s then advance n r s else Inr s)
                       (\<lambda>s1. Inr ((light_up_current_step s1)\<lparr>clock_counter := clock_counter s1 + 1\<rparr>))
                else Inr (s\<lparr>clock_counter := clock_counter s + 1\<rparr>))"
    by blast
  have "n \<noteq> 0" using n(2) assms(1,2) by auto
  from advance_total [OF this, of r s] obtain a where a: "advance n r s = Inr a" by blast
  define s1 where "s1 = (if is_playing s then a else s)"
  have s1: "(if is_playing s then advance n r s else Inr s) = Inr s1"
    by (simp add: s1_def a)
  have fr: "clock_counter s1 = clock_counter s" "io_log s1 = io_log s"
    using advance_frame(3,6) [OF a] by (simp_all add: s1_def)
  show ?thesis
  proof (cases "sint (clock_counter s) mod sint d = 0")
    case True
    have "message_clock sp cp r s
            = Inr ((light_up_current_step s1)\<lparr>clock_counter := clock_counter s + 1\<rparr>)"
      using m True s1 fr(1) by (simp add: seq_def)
    moreover have "io_log ((light_up_current_step s1)\<lparr>clock_counter := clock_counter s + 1\<rparr>)
            \<noteq> io_log s"
      using io_log_light_up_neq [of s1] fr(2) by simp
    ultimately show ?thesis using n(1) i d True s1 by simp
  next
    case False
    then have "message_clock sp cp r s = Inr (s\<lparr>clock_counter := clock_counter s + 1\<rparr>)"
      using m by simp
    then show ?thesis using n(1) i d False by simp
  qed
qed

lemma tick_trace_gates:
  assumes "0 \<le> sint cp" "sint cp \<le> 1023"
    "read_clock_pot_mapped cp = Inr i" "index clock_division i = Inr d"
    "\<forall>(sp, cp', r) \<in> set ticks. 0 \<le> sint sp \<and> sint sp \<le> 1023 \<and> cp' = cp"
  shows "\<exists>tr. tick_trace ticks s = Inr tr
           \<and> map fst tr
               = map (\<lambda>k. sint (clock_counter s + of_nat k) mod sint d = 0) [0..<length ticks]"
  using assms(5)
proof (induction ticks arbitrary: s)
  case Nil
  then show ?case by simp
next
  case (Cons t ticks)
  obtain sp r where t: "t = (sp, cp, r)" using Cons.prems by (cases t) auto
  have rng: "0 \<le> sint sp" "sint sp \<le> 1023" using Cons.prems t by auto
  from tick_gate [OF rng assms(1,2), of r s] assms(3,4) obtain s' where
    s': "message_clock sp cp r s = Inr s'" "clock_counter s' = clock_counter s + 1"
      "(io_log s' \<noteq> io_log s) = (sint (clock_counter s) mod sint d = 0)"
    by auto
  have "\<forall>(sp, cp', r) \<in> set ticks. 0 \<le> sint sp \<and> sint sp \<le> 1023 \<and> cp' = cp"
    using Cons.prems by simp
  from Cons.IH [OF this, of s'] obtain tr where
    tr: "tick_trace ticks s' = Inr tr"
      "map fst tr = map (\<lambda>k. sint (clock_counter s' + of_nat k) mod sint d = 0) [0..<length ticks]"
    by blast
  have e: "tick_trace (t # ticks) s = Inr ((io_log s' \<noteq> io_log s, step_counter s') # tr)"
    using t s'(1) tr(1) by (simp add: seq_def)
  have "map (\<lambda>k. sint (clock_counter s + of_nat k) mod sint d = 0) [0..<length (t # ticks)]
      = (sint (clock_counter s) mod sint d = 0)
        # map (\<lambda>k. sint (clock_counter s + of_nat (Suc k)) mod sint d = 0) [0..<length ticks]"
    by (simp add: upt_conv_Cons map_Suc_upt [symmetric] del: upt_Suc of_nat_Suc)
  also have "\<dots> = map fst ((io_log s' \<noteq> io_log s, step_counter s') # tr)"
    using s'(2,3) tr(2) by (simp add: add.assoc)
  finally show ?case using e by simp
qed

text \<open>A tick of a stopped sequencer, and a run of such ticks.\<close>

lemma stopped_tick:
  assumes "\<not> is_playing s"
    "0 \<le> sint sp" "sint sp \<le> 1023" "0 \<le> sint cp" "sint cp \<le> 1023"
  shows "\<exists>i d s'. read_clock_pot_mapped cp = Inr i \<and> index clock_division i = Inr d
           \<and> message_clock sp cp r s = Inr s'
           \<and> clock_counter s' = clock_counter s + 1
           \<and> step_counter s' = step_counter s
           \<and> play_mode s' = play_mode s
           \<and> pingpong_direction s' = pingpong_direction s
           \<and> \<not> is_playing s'
           \<and> (sint (clock_counter s) mod sint d \<noteq> 0
                \<longrightarrow> s' = s\<lparr>clock_counter := clock_counter s + 1\<rparr>)"
proof -
  from message_clock_eq [OF assms(2-5), of r s] obtain n i d where
    i: "read_clock_pot_mapped cp = Inr i" and
    d: "index clock_division i = Inr d" and
    m: "message_clock sp cp r s =
               (if sint (clock_counter s) mod sint d = 0
                then seq (if is_playing s then advance n r s else Inr s)
                       (\<lambda>s1. Inr ((light_up_current_step s1)\<lparr>clock_counter := clock_counter s1 + 1\<rparr>))
                else Inr (s\<lparr>clock_counter := clock_counter s + 1\<rparr>))"
    by blast
  show ?thesis
  proof (cases "sint (clock_counter s) mod sint d = 0")
    case True
    then have "message_clock sp cp r s
        = Inr ((light_up_current_step s)\<lparr>clock_counter := clock_counter s + 1\<rparr>)"
      using m assms(1) by (simp add: seq_def)
    then show ?thesis using i d True assms(1)
      by (simp add: light_up_current_step_eq)
  next
    case False
    then have "message_clock sp cp r s = Inr (s\<lparr>clock_counter := clock_counter s + 1\<rparr>)"
      using m by simp
    then show ?thesis using i d assms(1) by simp
  qed
qed

lemma stopped_ticks_trace:
  assumes "\<not> is_playing s"
    "\<forall>(sp, cp, r) \<in> set ticks. 0 \<le> sint sp \<and> sint sp \<le> 1023 \<and> 0 \<le> sint cp \<and> sint cp \<le> 1023"
  shows "\<exists>tr. tick_trace ticks s = Inr tr \<and> length tr = length ticks
           \<and> (\<forall>(g, v) \<in> set tr. v = step_counter s)"
  using assms
proof (induction ticks arbitrary: s)
  case Nil
  then show ?case by simp
next
  case (Cons t ticks)
  obtain sp cp r where t: "t = (sp, cp, r)" by (cases t) auto
  have rng: "0 \<le> sint sp" "sint sp \<le> 1023" "0 \<le> sint cp" "sint cp \<le> 1023"
    using Cons.prems(2) t by auto
  from stopped_tick [OF Cons.prems(1) rng, of r] obtain s' where
    s': "message_clock sp cp r s = Inr s'" "step_counter s' = step_counter s" "\<not> is_playing s'"
    by blast
  have "\<forall>(sp, cp, r) \<in> set ticks.
          0 \<le> sint sp \<and> sint sp \<le> 1023 \<and> 0 \<le> sint cp \<and> sint cp \<le> 1023"
    using Cons.prems(2) by simp
  from Cons.IH [OF s'(3) this] obtain tr where
    tr: "tick_trace ticks s' = Inr tr" "length tr = length ticks"
      "\<forall>(g, v) \<in> set tr. v = step_counter s'"
    by blast
  have "tick_trace (t # ticks) s = Inr ((io_log s' \<noteq> io_log s, step_counter s') # tr)"
    using t s'(1) tr(1) by (simp add: seq_def)
  then show ?case using tr(2,3) s'(2) by auto
qed

section \<open>The step stays on the hardware\<close>

text \<open>Every handler keeps \<open>step_counter\<close> in \<open>[0, 8)\<close>, and no pass of \<open>loop\<close> faults.\<close>

lemma message_clock_step_range:
  assumes "0 \<le> sint sp" "sint sp \<le> 1023" "0 \<le> sint cp" "sint cp \<le> 1023" "0 \<le> sint r"
    "0 \<le> sint (step_counter s)" "sint (step_counter s) < 8"
  shows "\<exists>s'. message_clock sp cp r s = Inr s'
           \<and> 0 \<le> sint (step_counter s') \<and> sint (step_counter s') < 8"
proof -
  from message_clock_eq [OF assms(1-4), of r s] obtain n i d where
    n: "read_step_pot_mapped sp = Inr n" "sint n = sint sp * 7 div 1023 + 1" and
    i: "read_clock_pot_mapped cp = Inr i" "sint i = 4 - sint cp * 4 div 1023" and
    d: "index clock_division i = Inr d" and
    m: "message_clock sp cp r s =
               (if sint (clock_counter s) mod sint d = 0
                then seq (if is_playing s then advance n r s else Inr s)
                       (\<lambda>s1. Inr ((light_up_current_step s1)\<lparr>clock_counter := clock_counter s1 + 1\<rparr>))
                else Inr (s\<lparr>clock_counter := clock_counter s + 1\<rparr>))"
    by blast
  have nr: "1 \<le> sint n" "sint n \<le> 8" using n(2) assms(1,2) by simp_all
  from advance_range [OF nr assms(6,7,5)] obtain a where
    a: "advance n r s = Inr a" "0 \<le> sint (step_counter a)" "sint (step_counter a) < sint n"
    by blast
  show ?thesis
    using m a nr(2) assms(6,7) by (simp add: seq_def light_up_current_step_eq)
qed

text \<open>A gated tick of a playing sequencer lands inside the step count just read.\<close>

lemma gated_tick_step_range:
  assumes "0 \<le> sint sp" "sint sp \<le> 1023" "0 \<le> sint cp" "sint cp \<le> 1023" "0 \<le> sint r"
    "0 \<le> sint (step_counter s)" "sint (step_counter s) < 8" "is_playing s"
  shows "\<exists>n i d s'. read_step_pot_mapped sp = Inr n \<and> read_clock_pot_mapped cp = Inr i
           \<and> index clock_division i = Inr d
           \<and> message_clock sp cp r s = Inr s'
           \<and> (if sint (clock_counter s) mod sint d = 0
                then 0 \<le> sint (step_counter s') \<and> sint (step_counter s') < sint n
                else step_counter s' = step_counter s)"
proof -
  from message_clock_eq [OF assms(1-4), of r s] obtain n i d where
    n: "read_step_pot_mapped sp = Inr n" "sint n = sint sp * 7 div 1023 + 1" and
    i: "read_clock_pot_mapped cp = Inr i" "sint i = 4 - sint cp * 4 div 1023" and
    d: "index clock_division i = Inr d" and
    m: "message_clock sp cp r s =
               (if sint (clock_counter s) mod sint d = 0
                then seq (if is_playing s then advance n r s else Inr s)
                       (\<lambda>s1. Inr ((light_up_current_step s1)\<lparr>clock_counter := clock_counter s1 + 1\<rparr>))
                else Inr (s\<lparr>clock_counter := clock_counter s + 1\<rparr>))"
    by blast
  have nr: "1 \<le> sint n" "sint n \<le> 8" using n(2) assms(1,2) by simp_all
  from advance_range [OF nr assms(6,7,5)] obtain a where
    a: "advance n r s = Inr a" "0 \<le> sint (step_counter a)" "sint (step_counter a) < sint n"
    by blast
  have "\<exists>s'. message_clock sp cp r s = Inr s'
           \<and> (if sint (clock_counter s) mod sint d = 0
                then 0 \<le> sint (step_counter s') \<and> sint (step_counter s') < sint n
                else step_counter s' = step_counter s)"
    using m a assms(8) by (simp add: seq_def light_up_current_step_eq)
  with n(1) i(1) d show ?thesis by blast
qed

lemma button_poll_step_range:
  assumes "0 \<le> sint (step_counter s)" "sint (step_counter s) < 8"
  shows "\<exists>s'. button_poll b s = Inr s'
           \<and> 0 \<le> sint (step_counter s') \<and> sint (step_counter s') < 8"
proof -
  have a: "sint (step_counter s + 1) = sint (step_counter s) + 1"
    using assms by (subst sint_add16) simp_all
  from c_rem_nonneg [of "step_counter s + 1" 8] assms a obtain v where
    v: "c_rem (step_counter s + 1) 8 = Inr v" "sint v = (sint (step_counter s) + 1) mod 8"
    by auto
  obtain m where m: "c_rem (play_mode s + 1) 4 = Inr m" by (simp add: c_rem_def)
  have "0 \<le> sint v" "sint v < 8" using v(2) by simp_all
  then show ?thesis
    using v(1) m assms
    by (simp add: button_poll_def seq_def NUM_OF_LEDS_def light_up_current_step_eq)
qed

lemma loop_step_range:
  assumes "inputs_ok inp" "0 \<le> sint (step_counter s)" "sint (step_counter s) < 8"
  shows "\<exists>s'. loop inp s = Inr s'
           \<and> 0 \<le> sint (step_counter s') \<and> sint (step_counter s') < 8"
proof -
  have "\<exists>s1. MIDI_read inp s = Inr s1
           \<and> 0 \<le> sint (step_counter s1) \<and> sint (step_counter s1) < 8"
  proof (cases "midi inp")
    case None
    then show ?thesis using assms(2,3) by (simp add: MIDI_read_def)
  next
    case (Some msg)
    show ?thesis
    proof (cases msg)
      case Clock
      from message_clock_step_range [of "step_pot inp" "clock_pot inp" "raw_random inp" s]
        assms
      show ?thesis by (simp add: MIDI_read_def Some Clock inputs_ok_def)
    next
      case Start
      show ?thesis by (simp add: MIDI_read_def Some Start message_start_def light_up_current_step_eq)
    next
      case Stop
      show ?thesis using assms(2,3) by (simp add: MIDI_read_def Some Stop message_stop_eq)
    qed
  qed
  then obtain s1 where s1: "MIDI_read inp s = Inr s1"
    "0 \<le> sint (step_counter s1)" "sint (step_counter s1) < 8" by blast
  from button_poll_step_range [OF s1(2,3), of "button inp"] s1(1)
  show ?thesis by (simp add: loop_def seq_def)
qed

lemma run_step_range:
  assumes "\<forall>inp \<in> set inps. inputs_ok inp"
    "0 \<le> sint (step_counter s)" "sint (step_counter s) < 8"
  shows "\<exists>s'. run inps s = Inr s'
           \<and> 0 \<le> sint (step_counter s') \<and> sint (step_counter s') < 8"
  using assms
proof (induction inps arbitrary: s)
  case Nil
  then show ?case by simp
next
  case (Cons inp inps)
  from loop_step_range [of inp s] Cons.prems obtain s1 where
    s1: "loop inp s = Inr s1" "0 \<le> sint (step_counter s1)" "sint (step_counter s1) < 8"
    by auto
  from Cons.IH [OF _ s1(2,3)] Cons.prems(1) s1(1) show ?case by (simp add: seq_def)
qed

section \<open>Evaluating ticks at fixed readings\<close>

text \<open>A step reading of 500 selects four steps and one of 1023 all eight; a clock reading
  of 1023 selects the divisor 1 (index 0) and one of 800 the divisor 3 (index 1).\<close>

lemma read_step_pot_mapped_500: "read_step_pot_mapped 500 = Inr 4"
  by (simp add: read_step_pot_mapped_def map_long_def c_quot_def seq_def NUM_OF_LEDS_def
      signed_divide_int_def)

lemma read_step_pot_mapped_1023: "read_step_pot_mapped 1023 = Inr 8"
  by (simp add: read_step_pot_mapped_def map_long_def c_quot_def seq_def NUM_OF_LEDS_def
      signed_divide_int_def)

lemma read_clock_pot_mapped_1023: "read_clock_pot_mapped 1023 = Inr 0"
  by (simp add: read_clock_pot_mapped_def map_long_def c_quot_def seq_def NUM_OF_CLOCK_DIVISIONS_def
      signed_divide_int_def)

lemma read_clock_pot_mapped_800: "read_clock_pot_mapped 800 = Inr 1"
  by (simp add: read_clock_pot_mapped_def map_long_def c_quot_def seq_def NUM_OF_CLOCK_DIVISIONS_def
      signed_divide_int_def)

lemmas tick_eval =
  message_clock_def read_step_pot_mapped_500 read_step_pot_mapped_1023
  read_clock_pot_mapped_1023 read_clock_pot_mapped_800
  index_def clock_division_def c_rem_def seq_def signed_modulo_int_def advance_def
  constrain_def Let_def word_sle_eq word_sless_alt
  light_up_current_step_eq notify_events_not_Nil

section \<open>Claims\<close>

text \<open>
  C1. For every step count in \<open>[1, 8]\<close> and every play mode (the switch's default branch
  takes every mode value other than 1, 2 and 3), the step after the switch of a gated tick
  lies in \<open>[0, step_count)\<close>. The step before may be anywhere in the hardware range
  \<open>[0, 8)\<close>, so also at or above a step count that has just shrunk. The raw random draw is
  non-negative, as the C library returns it. The state after any run of passes of \<open>loop\<close>
  from power-on, with inputs in range, has its step in \<open>[0, 8)\<close>, so the bound holds for the
  advance after every sequence of ticks, transport messages and button presses. On the whole
  tick handler: a gated tick of a playing sequencer leaves the step inside the step count
  mapped from that tick's reading, and a tick that is not gated leaves the step alone.
\<close>

theorem advance_step_in_range:
  assumes "1 \<le> sint n" "sint n \<le> 8" "0 \<le> sint r"
    "\<forall>inp \<in> set inps. inputs_ok inp"
  shows "(0 \<le> sint (step_counter s) \<and> sint (step_counter s) < 8
          \<longrightarrow> (\<exists>s'. advance n r s = Inr s'
                 \<and> 0 \<le> sint (step_counter s') \<and> sint (step_counter s') < sint n))
       \<and> (\<exists>s0 s'. run inps initial = Inr s0
             \<and> 0 \<le> sint (step_counter s0) \<and> sint (step_counter s0) < 8
             \<and> advance n r s0 = Inr s'
             \<and> 0 \<le> sint (step_counter s') \<and> sint (step_counter s') < sint n)
       \<and> (0 \<le> sint sp \<and> sint sp \<le> 1023 \<and> 0 \<le> sint cp \<and> sint cp \<le> 1023
            \<and> 0 \<le> sint (step_counter s) \<and> sint (step_counter s) < 8 \<and> is_playing s
          \<longrightarrow> (\<exists>m i d s'. read_step_pot_mapped sp = Inr m \<and> read_clock_pot_mapped cp = Inr i
                 \<and> index clock_division i = Inr d
                 \<and> message_clock sp cp r s = Inr s'
                 \<and> (if sint (clock_counter s) mod sint d = 0
                      then 0 \<le> sint (step_counter s') \<and> sint (step_counter s') < sint m
                      else step_counter s' = step_counter s)))"
proof (intro conjI)
  show "0 \<le> sint (step_counter s) \<and> sint (step_counter s) < 8
          \<longrightarrow> (\<exists>s'. advance n r s = Inr s'
                 \<and> 0 \<le> sint (step_counter s') \<and> sint (step_counter s') < sint n)"
    using advance_range [OF assms(1,2) _ _ assms(3), of s] by blast
  have "0 \<le> sint (step_counter initial)" "sint (step_counter initial) < 8"
    by (simp_all add: initial_def)
  from run_step_range [OF assms(4) this] obtain s0 where
    s0: "run inps initial = Inr s0" "0 \<le> sint (step_counter s0)" "sint (step_counter s0) < 8"
    by blast
  from advance_range [OF assms(1,2) s0(2,3) assms(3)] obtain s' where
    "advance n r s0 = Inr s'" "0 \<le> sint (step_counter s')" "sint (step_counter s') < sint n"
    by blast
  with s0 show "\<exists>s0 s'. run inps initial = Inr s0
             \<and> 0 \<le> sint (step_counter s0) \<and> sint (step_counter s0) < 8
             \<and> advance n r s0 = Inr s'
             \<and> 0 \<le> sint (step_counter s') \<and> sint (step_counter s') < sint n"
    by (intro exI [of _ s0] exI [of _ s'] conjI)
  show "0 \<le> sint sp \<and> sint sp \<le> 1023 \<and> 0 \<le> sint cp \<and> sint cp \<le> 1023
            \<and> 0 \<le> sint (step_counter s) \<and> sint (step_counter s) < 8 \<and> is_playing s
          \<longrightarrow> (\<exists>m i d s'. read_step_pot_mapped sp = Inr m \<and> read_clock_pot_mapped cp = Inr i
                 \<and> index clock_division i = Inr d
                 \<and> message_clock sp cp r s = Inr s'
                 \<and> (if sint (clock_counter s) mod sint d = 0
                      then 0 \<le> sint (step_counter s') \<and> sint (step_counter s') < sint m
                      else step_counter s' = step_counter s))"
  proof
    assume a: "0 \<le> sint sp \<and> sint sp \<le> 1023 \<and> 0 \<le> sint cp \<and> sint cp \<le> 1023
            \<and> 0 \<le> sint (step_counter s) \<and> sint (step_counter s) < 8 \<and> is_playing s"
    then have "0 \<le> sint sp" "sint sp \<le> 1023" "0 \<le> sint cp" "sint cp \<le> 1023"
      "0 \<le> sint (step_counter s)" "sint (step_counter s) < 8" "is_playing s" by simp_all
    from gated_tick_step_range [OF this(1-4) assms(3) this(5-7)]
    show "\<exists>m i d s'. read_step_pot_mapped sp = Inr m \<and> read_clock_pot_mapped cp = Inr i
                 \<and> index clock_division i = Inr d
                 \<and> message_clock sp cp r s = Inr s'
                 \<and> (if sint (clock_counter s) mod sint d = 0
                      then 0 \<le> sint (step_counter s') \<and> sint (step_counter s') < sint m
                      else step_counter s' = step_counter s)" .
  qed
qed

theorem advance_step_in_range_witness:
  "1 \<le> sint (3 :: int16) \<and> sint (3 :: int16) \<le> 8 \<and> 0 \<le> sint (7 :: long32)
   \<and> inputs_ok \<lparr>midi = Some Start, step_pot = 1023, clock_pot = 1023, raw_random = 0, button = True\<rparr>
   \<and> inputs_ok \<lparr>midi = Some Clock, step_pot = 1023, clock_pot = 1023, raw_random = 0, button = True\<rparr>
   \<and> 0 \<le> sint (300 :: int16) \<and> sint (300 :: int16) \<le> 1023
   \<and> 0 \<le> sint (1023 :: int16) \<and> sint (1023 :: int16) \<le> 1023
   \<and> 0 \<le> sint (step_counter (initial\<lparr>step_counter := 6, play_mode := 1, is_playing := True\<rparr>))
   \<and> sint (step_counter (initial\<lparr>step_counter := 6, play_mode := 1, is_playing := True\<rparr>)) < 8
   \<and> is_playing (initial\<lparr>step_counter := 6, play_mode := 1, is_playing := True\<rparr>)
   \<and> (\<exists>s'. advance 3 7 (initial\<lparr>step_counter := 6, play_mode := 1, is_playing := True\<rparr>) = Inr s'
           \<and> 0 \<le> sint (step_counter s') \<and> sint (step_counter s') < sint (3 :: int16))
   \<and> (\<exists>s0 s'. run [\<lparr>midi = Some Start, step_pot = 1023, clock_pot = 1023, raw_random = 0, button = True\<rparr>,
                     \<lparr>midi = Some Clock, step_pot = 1023, clock_pot = 1023, raw_random = 0, button = True\<rparr>]
                 initial = Inr s0
           \<and> 0 \<le> sint (step_counter s0) \<and> sint (step_counter s0) < 8
           \<and> advance 3 7 s0 = Inr s'
           \<and> 0 \<le> sint (step_counter s') \<and> sint (step_counter s') < sint (3 :: int16))
   \<and> (\<exists>s'. message_clock 300 1023 7 (initial\<lparr>step_counter := 6, play_mode := 1, is_playing := True\<rparr>)
              = Inr s'
           \<and> 0 \<le> sint (step_counter s') \<and> sint (step_counter s') < 3)"
proof -
  let ?s = "initial\<lparr>step_counter := 6, play_mode := 1, is_playing := True\<rparr>"
  have ok: "inputs_ok \<lparr>midi = Some Start, step_pot = 1023, clock_pot = 1023, raw_random = 0, button = True\<rparr>"
    "inputs_ok \<lparr>midi = Some Clock, step_pot = 1023, clock_pot = 1023, raw_random = 0, button = True\<rparr>"
    by (simp_all add: inputs_ok_def)
  have h: "1 \<le> sint (3 :: int16)" "sint (3 :: int16) \<le> 8" "0 \<le> sint (7 :: long32)"
    "\<forall>inp \<in> set [\<lparr>midi = Some Start, step_pot = 1023, clock_pot = 1023, raw_random = 0, button = True\<rparr>,
                     \<lparr>midi = Some Clock, step_pot = 1023, clock_pot = 1023, raw_random = 0, button = True\<rparr>].
        inputs_ok inp"
    using ok by simp_all
  have r: "0 \<le> sint (300 :: int16)" "sint (300 :: int16) \<le> 1023"
    "0 \<le> sint (1023 :: int16)" "sint (1023 :: int16) \<le> 1023"
    "0 \<le> sint (step_counter ?s)" "sint (step_counter ?s) < 8" "is_playing ?s"
    by simp_all
  have m3: "read_step_pot_mapped 300 = Inr 3"
    by (simp add: read_step_pot_mapped_def map_long_def c_quot_def seq_def NUM_OF_LEDS_def
        signed_divide_int_def)
  have d1: "index clock_division 0 = Inr 1"
    by (simp add: index_def clock_division_def)
  note t = advance_step_in_range [OF h, of ?s 300 1023]
  from t r have a: "\<exists>s'. advance 3 7 ?s = Inr s'
           \<and> 0 \<le> sint (step_counter s') \<and> sint (step_counter s') < sint (3 :: int16)"
    by blast
  from t have b: "\<exists>s0 s'. run [\<lparr>midi = Some Start, step_pot = 1023, clock_pot = 1023, raw_random = 0, button = True\<rparr>,
                     \<lparr>midi = Some Clock, step_pot = 1023, clock_pot = 1023, raw_random = 0, button = True\<rparr>]
                 initial = Inr s0
           \<and> 0 \<le> sint (step_counter s0) \<and> sint (step_counter s0) < 8
           \<and> advance 3 7 s0 = Inr s'
           \<and> 0 \<le> sint (step_counter s') \<and> sint (step_counter s') < sint (3 :: int16)"
    by blast
  from t r have "\<exists>m i d s'. read_step_pot_mapped 300 = Inr m \<and> read_clock_pot_mapped 1023 = Inr i
                 \<and> index clock_division i = Inr d
                 \<and> message_clock 300 1023 7 ?s = Inr s'
                 \<and> (if sint (clock_counter ?s) mod sint d = 0
                      then 0 \<le> sint (step_counter s') \<and> sint (step_counter s') < sint m
                      else step_counter s' = step_counter ?s)"
    by blast
  then have c: "\<exists>s'. message_clock 300 1023 7 ?s = Inr s'
           \<and> 0 \<le> sint (step_counter s') \<and> sint (step_counter s') < 3"
    by (auto simp: m3 read_clock_pot_mapped_1023 d1)
  from h(1-3) ok r a b c show ?thesis by (intro conjI)
qed

text \<open>
  C2, as stated, fails: a tick of a stopped sequencer does reach the output when the divider
  gates it. After Start and Stop every step output is low; the next tick (divisor 1) calls
  \<open>light_up_current_step\<close>, which drives the output of step 0 high again and pulses the
  built-in LED.
\<close>

theorem stopped_tick_notifies:
  "\<not> is_playing (message_stop (message_start initial))
   \<and> \<not> pins (message_stop (message_start initial)) 2
   \<and> message_clock 1023 1023 0 (message_stop (message_start initial))
       = Inr ((light_up_current_step (message_stop (message_start initial)))\<lparr>clock_counter := 1\<rparr>)
   \<and> pins ((light_up_current_step (message_stop (message_start initial)))\<lparr>clock_counter := 1\<rparr>) 2
   \<and> io_log ((light_up_current_step (message_stop (message_start initial)))\<lparr>clock_counter := 1\<rparr>)
       = io_log (message_stop (message_start initial))
         @ [DigitalWrite 2 True, DigitalWrite 3 False, DigitalWrite 4 False, DigitalWrite 5 False,
            DigitalWrite 6 False, DigitalWrite 7 False, DigitalWrite 8 False, DigitalWrite 9 False,
            DigitalWrite 13 True, Delay 20, DigitalWrite 13 False]"
  by (simp add: tick_eval message_stop_eq message_start_def initial_def notify_events_def
      NUM_OF_LEDS_def PIN_LED_def blink_duration_def upt_conv_Cons)

text \<open>
  C2, amended. While the sequencer is stopped, every tick adds one to \<open>clock_counter\<close> and
  no tick changes \<open>step_counter\<close>, \<open>play_mode\<close>, \<open>pingpong_direction\<close> or \<open>is_playing\<close>;
  a tick that the divider does not gate changes nothing else either, so it writes no output
  and fires no pulse. Over any run of ticks the step stays where it was.
\<close>

theorem stopped_ticks_keep_step:
  assumes "\<not> is_playing s"
    "0 \<le> sint sp" "sint sp \<le> 1023" "0 \<le> sint cp" "sint cp \<le> 1023"
    "\<forall>(sp, cp, r) \<in> set ticks. 0 \<le> sint sp \<and> sint sp \<le> 1023 \<and> 0 \<le> sint cp \<and> sint cp \<le> 1023"
  shows "(\<exists>i d s'. read_clock_pot_mapped cp = Inr i \<and> index clock_division i = Inr d
           \<and> message_clock sp cp r s = Inr s'
           \<and> clock_counter s' = clock_counter s + 1
           \<and> step_counter s' = step_counter s
           \<and> play_mode s' = play_mode s
           \<and> pingpong_direction s' = pingpong_direction s
           \<and> \<not> is_playing s'
           \<and> (sint (clock_counter s) mod sint d \<noteq> 0
                \<longrightarrow> s' = s\<lparr>clock_counter := clock_counter s + 1\<rparr>))
       \<and> (\<exists>tr. tick_trace ticks s = Inr tr \<and> length tr = length ticks
           \<and> (\<forall>(g, v) \<in> set tr. v = step_counter s))"
  using stopped_tick [OF assms(1-5)] stopped_ticks_trace [OF assms(1,6)] by (rule conjI)

theorem stopped_ticks_keep_step_witness:
  "\<not> is_playing (initial\<lparr>clock_counter := 1, step_counter := 5\<rparr>)
   \<and> 0 \<le> sint (500 :: int16) \<and> sint (500 :: int16) \<le> 1023
   \<and> 0 \<le> sint (800 :: int16) \<and> sint (800 :: int16) \<le> 1023
   \<and> message_clock 500 800 0 (initial\<lparr>clock_counter := 1, step_counter := 5\<rparr>)
       = Inr (initial\<lparr>clock_counter := 2, step_counter := 5\<rparr>)
   \<and> tick_trace [(500, 800, 0), (500, 800, 0), (500, 800, 0)]
        (initial\<lparr>clock_counter := 1, step_counter := 5\<rparr>)
       = Inr [(False, 5), (False, 5), (True, 5)]"
proof -
  let ?s = "initial\<lparr>clock_counter := 1, step_counter := 5\<rparr>"
  have h: "\<not> is_playing ?s" "0 \<le> sint (500 :: int16)" "sint (500 :: int16) \<le> 1023"
    "0 \<le> sint (800 :: int16)" "sint (800 :: int16) \<le> 1023"
    "\<forall>(sp, cp, r) \<in> set [(500, 800, 0), (500, 800, 0), (500, 800, 0 :: long32)].
       0 \<le> sint (sp :: int16) \<and> sint sp \<le> 1023 \<and> 0 \<le> sint (cp :: int16) \<and> sint cp \<le> 1023"
    by (simp_all add: initial_def)
  have i: "read_clock_pot_mapped 800 = Inr 1" by (rule read_clock_pot_mapped_800)
  have d: "index clock_division 1 = Inr 3" by (simp add: index_def clock_division_def word_sle_eq)
  from stopped_ticks_keep_step [OF h, of 0] i d
  have m: "\<exists>s'. message_clock 500 800 0 ?s = Inr s' \<and> s' = ?s\<lparr>clock_counter := clock_counter ?s + 1\<rparr>"
    and tr: "\<exists>tr. tick_trace [(500, 800, 0), (500, 800, 0), (500, 800, 0)] ?s = Inr tr
        \<and> length tr = 3 \<and> (\<forall>(g, v) \<in> set tr. v = step_counter ?s)"
    by (auto simp: initial_def)
  have "tick_trace [(500, 800, 0), (500, 800, 0), (500, 800, 0)] ?s
       = Inr [(False, 5), (False, 5), (True, 5)]"
    by (simp add: tick_eval initial_def)
  with m h show ?thesis by (auto simp: initial_def)
qed

text \<open>
  C3, as stated, fails: in PingPong mode an endpoint is the active step for one gated tick,
  not for two. Eight gated ticks with four steps, from step 0 upwards, give
  1, 2, 3, 2, 1, 0, 1, 2: step 3 and step 0 each appear once per pass.
\<close>

theorem pingpong_endpoint_one_tick:
  "tick_trace [(500, 1023, 0), (500, 1023, 0), (500, 1023, 0), (500, 1023, 0),
               (500, 1023, 0), (500, 1023, 0), (500, 1023, 0), (500, 1023, 0)]
     (initial\<lparr>is_playing := True, play_mode := 2\<rparr>)
   = Inr [(True, 1), (True, 2), (True, 3), (True, 2), (True, 1), (True, 0), (True, 1), (True, 2)]"
  by (simp add: tick_eval initial_def)

text \<open>
  C3, amended. In PingPong mode with a step count in \<open>[2, 8]\<close> and the step inside
  \<open>[0, step_count)\<close>: when an advance moves the step onto an endpoint (0 or
  \<open>step_count - 1\<close>), the direction flips on arrival (\<open>pingpong_direction\<close> after that
  advance is the negation of what it was before), and the next advance with the same step
  count leaves the endpoint for its neighbour (1, or \<open>step_count - 2\<close>). The endpoint is
  the active step for that one gated tick.
\<close>

theorem pingpong_endpoint_bounce:
  assumes "play_mode s = 2" "2 \<le> sint n" "sint n \<le> 8"
    "0 \<le> sint (step_counter s)" "sint (step_counter s) < sint n"
    "advance n r s = Inr s1" "step_counter s1 \<noteq> step_counter s"
    "sint (step_counter s1) = 0 \<or> sint (step_counter s1) = sint n - 1"
  shows "pingpong_direction s1 = (\<not> pingpong_direction s)
       \<and> (\<exists>s2. advance n r' s1 = Inr s2
           \<and> sint (step_counter s2) = (if sint (step_counter s1) = 0 then 1 else sint n - 2)
           \<and> step_counter s2 \<noteq> step_counter s1)"
proof -
  have n1: "1 \<le> sint n" and s8: "sint (step_counter s) < 8" using assms(2,3,5) by linarith+
  from advance_pingpong [OF assms(1) n1 assms(3,4) s8, of r] obtain t where
    t: "advance n r s = Inr t"
       "sint (step_counter t) =
               max 0 (min (sint n - 1)
                 (sint (step_counter s) + (if pingpong_direction s then 1 else - 1)))"
       "pingpong_direction t =
               (if sint n - 1 \<le> sint (step_counter s) + (if pingpong_direction s then 1 else - 1)
                   \<or> sint (step_counter s) + (if pingpong_direction s then 1 else - 1) \<le> 0
                then \<not> pingpong_direction s else pingpong_direction s)"
    by blast
  have "t = s1" using t(1) assms(6) by simp
  note v1 = t(2) [unfolded \<open>t = s1\<close>] and d1 = t(3) [unfolded \<open>t = s1\<close>]
  have ne: "sint (step_counter s1) \<noteq> sint (step_counter s)"
    using assms(7) signed_word_eqI [of "step_counter s1" "step_counter s", where ?'a = int]
    by blast
  have m1: "play_mode s1 = 2" using advance_frame(1) [OF assms(6)] assms(1) by simp
  have r1: "0 \<le> sint (step_counter s1)" "sint (step_counter s1) < 8"
    using v1 assms(2,3) by auto
  from advance_pingpong [OF m1 n1 assms(3) r1, of r'] obtain s2 where
    s2: "advance n r' s1 = Inr s2" and
    v2: "sint (step_counter s2) =
               max 0 (min (sint n - 1)
                 (sint (step_counter s1) + (if pingpong_direction s1 then 1 else - 1)))"
    by blast
  have e: "sint (step_counter s2) = (if sint (step_counter s1) = 0 then 1 else sint n - 2)"
    using v1 d1 v2 ne assms(2,3,4,5,8) by (auto split: if_splits)
  then have "sint (step_counter s2) \<noteq> sint (step_counter s1)"
    using assms(2,8) by (auto split: if_splits)
  then have "step_counter s2 \<noteq> step_counter s1" by auto
  with e s2 have leave: "\<exists>s2. advance n r' s1 = Inr s2
           \<and> sint (step_counter s2) = (if sint (step_counter s1) = 0 then 1 else sint n - 2)
           \<and> step_counter s2 \<noteq> step_counter s1"
    by (intro exI [of _ s2] conjI)
  have flip: "pingpong_direction s1 = (\<not> pingpong_direction s)"
    using v1 d1 ne assms(2,3,4,5,8) by (auto split: if_splits)
  from flip leave show ?thesis by (rule conjI)
qed

theorem pingpong_endpoint_bounce_witness:
  "play_mode (initial\<lparr>play_mode := 2, step_counter := 2\<rparr>) = 2
   \<and> 2 \<le> sint (4 :: int16) \<and> sint (4 :: int16) \<le> 8
   \<and> 0 \<le> sint (step_counter (initial\<lparr>play_mode := 2, step_counter := 2\<rparr>))
   \<and> sint (step_counter (initial\<lparr>play_mode := 2, step_counter := 2\<rparr>)) < sint (4 :: int16)
   \<and> advance 4 0 (initial\<lparr>play_mode := 2, step_counter := 2\<rparr>)
       = Inr (initial\<lparr>play_mode := 2, step_counter := 3, pingpong_direction := False\<rparr>)
   \<and> step_counter (initial\<lparr>play_mode := 2, step_counter := 3, pingpong_direction := False\<rparr>)
       \<noteq> step_counter (initial\<lparr>play_mode := 2, step_counter := 2\<rparr>)
   \<and> sint (step_counter (initial\<lparr>play_mode := 2, step_counter := 3, pingpong_direction := False\<rparr>))
       = sint (4 :: int16) - 1
   \<and> pingpong_direction (initial\<lparr>play_mode := 2, step_counter := 3, pingpong_direction := False\<rparr>)
       = (\<not> pingpong_direction (initial\<lparr>play_mode := 2, step_counter := 2\<rparr>))
   \<and> (\<exists>s2. advance 4 0 (initial\<lparr>play_mode := 2, step_counter := 3, pingpong_direction := False\<rparr>)
              = Inr s2
          \<and> sint (step_counter s2) = 2
          \<and> step_counter s2
              \<noteq> step_counter (initial\<lparr>play_mode := 2, step_counter := 3, pingpong_direction := False\<rparr>))"
proof -
  have a: "advance 4 0 (initial\<lparr>play_mode := 2, step_counter := 2\<rparr>)
       = Inr (initial\<lparr>play_mode := 2, step_counter := 3, pingpong_direction := False\<rparr>)"
    by (simp add: advance_def constrain_def Let_def word_sle_eq word_sless_alt initial_def)
  show ?thesis
    using a pingpong_endpoint_bounce [of "initial\<lparr>play_mode := 2, step_counter := 2\<rparr>" 4 0
        "initial\<lparr>play_mode := 2, step_counter := 3, pingpong_direction := False\<rparr>" 0]
    by simp
qed

text \<open>
  C4. A tick is gated exactly when \<open>clock_counter mod clock_pot_selected = 0\<close> (C's \<open>%\<close> is
  zero exactly when the mathematical \<open>mod\<close> is): with the gate open the step advances if the
  sequencer is playing and the output is notified, with the gate closed nothing happens; in
  both cases \<open>clock_counter\<close> goes up by one. With the divisor 3 (clock reading 800) and a
  counter starting at 0, ten ticks gate at ticks 0, 3, 6 and 9 and not at 1, 2, 4, 5, 7, 8.
\<close>

theorem clock_divider_gating:
  assumes "0 \<le> sint sp" "sint sp \<le> 1023" "0 \<le> sint cp" "sint cp \<le> 1023"
    "\<forall>(sp', cp', r') \<in> set ticks. 0 \<le> sint sp' \<and> sint sp' \<le> 1023 \<and> cp' = 800"
    "length ticks = 10" "clock_counter t = 0"
  shows "(\<exists>n i d s'. read_step_pot_mapped sp = Inr n \<and> read_clock_pot_mapped cp = Inr i
           \<and> index clock_division i = Inr d
           \<and> message_clock sp cp r s = Inr s'
           \<and> clock_counter s' = clock_counter s + 1
           \<and> (io_log s' \<noteq> io_log s) = (sint (clock_counter s) mod sint d = 0)
           \<and> (sint (clock_counter s) mod sint d \<noteq> 0
                \<longrightarrow> s' = s\<lparr>clock_counter := clock_counter s + 1\<rparr>)
           \<and> (sint (clock_counter s) mod sint d = 0
                \<longrightarrow> (\<exists>s1. (if is_playing s then advance n r s else Inr s) = Inr s1
                       \<and> s' = (light_up_current_step s1)\<lparr>clock_counter := clock_counter s + 1\<rparr>)))
       \<and> read_clock_pot_mapped 800 = Inr 1 \<and> index clock_division 1 = Inr 3
       \<and> (\<exists>tr. tick_trace ticks t = Inr tr
            \<and> map fst tr = [True, False, False, True, False, False, True, False, False, True])"
proof -
  have i: "read_clock_pot_mapped 800 = Inr 1" by (rule read_clock_pot_mapped_800)
  have d: "index clock_division 1 = Inr 3" by (simp add: index_def clock_division_def word_sle_eq)
  have "0 \<le> sint (800 :: int16)" "sint (800 :: int16) \<le> 1023" by simp_all
  from tick_trace_gates [OF this i d assms(5), of t] obtain tr where
    tr: "tick_trace ticks t = Inr tr"
      "map fst tr = map (\<lambda>k. sint (clock_counter t + of_nat k) mod sint (3 :: int16) = 0)
                      [0..<length ticks]"
    by blast
  have "map fst tr = [True, False, False, True, False, False, True, False, False, True]"
    unfolding tr(2) assms(6,7) by (simp add: upt_conv_Cons)
  with tr(1) have "\<exists>tr. tick_trace ticks t = Inr tr
            \<and> map fst tr = [True, False, False, True, False, False, True, False, False, True]"
    by (intro exI [of _ tr] conjI)
  with tick_gate [OF assms(1-4), of r s] i d show ?thesis by (intro conjI)
qed

theorem clock_divider_gating_witness:
  "0 \<le> sint (500 :: int16) \<and> sint (500 :: int16) \<le> 1023
   \<and> 0 \<le> sint (800 :: int16) \<and> sint (800 :: int16) \<le> 1023
   \<and> length (replicate 10 (1023 :: int16, 800 :: int16, 0 :: long32)) = 10
   \<and> clock_counter (message_start initial) = 0
   \<and> message_clock 500 800 0 (initial\<lparr>clock_counter := 4\<rparr>) = Inr (initial\<lparr>clock_counter := 5\<rparr>)
   \<and> (\<exists>tr. tick_trace (replicate 10 (1023, 800, 0)) (message_start initial) = Inr tr
          \<and> map fst tr = [True, False, False, True, False, False, True, False, False, True])"
proof -
  have h: "0 \<le> sint (500 :: int16)" "sint (500 :: int16) \<le> 1023"
    "0 \<le> sint (800 :: int16)" "sint (800 :: int16) \<le> 1023"
    "\<forall>(sp', cp', r') \<in> set (replicate 10 (1023 :: int16, 800 :: int16, 0 :: long32)).
        0 \<le> sint sp' \<and> sint sp' \<le> 1023 \<and> cp' = 800"
    "length (replicate 10 (1023 :: int16, 800 :: int16, 0 :: long32)) = 10"
    "clock_counter (message_start initial) = 0"
    by (simp_all add: message_start_def)
  from clock_divider_gating [OF h, of 0 "initial\<lparr>clock_counter := 4\<rparr>"]
  have a: "\<exists>d s'. index clock_division 1 = Inr d
           \<and> message_clock 500 800 0 (initial\<lparr>clock_counter := 4\<rparr>) = Inr s'
           \<and> (sint (4 :: int16) mod sint d \<noteq> 0 \<longrightarrow> s' = initial\<lparr>clock_counter := 5\<rparr>)"
    and b: "\<exists>tr. tick_trace (replicate 10 (1023, 800, 0)) (message_start initial) = Inr tr
          \<and> map fst tr = [True, False, False, True, False, False, True, False, False, True]"
    by (auto simp: read_clock_pot_mapped_800)
  have d: "index clock_division 1 = Inr 3" by (simp add: index_def clock_division_def word_sle_eq)
  from a d have "message_clock 500 800 0 (initial\<lparr>clock_counter := 4\<rparr>)
      = Inr (initial\<lparr>clock_counter := 5\<rparr>)" by auto
  with b h show ?thesis by (intro conjI)
qed

text \<open>
  C5. From every state, \<open>message_start\<close> sets \<open>is_playing\<close> to true, \<open>step_counter\<close> and
  \<open>clock_counter\<close> to 0 and \<open>pingpong_direction\<close> to true, and notifies the output of step 0 at
  once: the output of step 0 (pin 2) goes high, the other seven go low, and the built-in LED
  is pulsed. Nothing else changes.
\<close>

theorem message_start_effect:
  "message_start s =
     s\<lparr>is_playing := True, step_counter := 0, clock_counter := 0, pingpong_direction := True,
       pins := (pins s)
         (2 := True, 3 := False, 4 := False, 5 := False, 6 := False, 7 := False,
          8 := False, 9 := False, 13 := False),
       io_log := io_log s @ notify_events 0\<rparr>"
  by (simp add: message_start_def light_up_current_step_eq)

text \<open>
  C6. In Reverse mode (\<open>play_mode = 1\<close>) the switch sets the step to
  \<open>(step_counter - 1 + step_count) mod step_count\<close>, which is not negative, for every step
  count in \<open>[1, 8]\<close> and every step in \<open>[0, 8)\<close>. With a step count of 4 and starting at
  step 0, four advances give 3, 2, 1, 0; so do four gated ticks of a playing sequencer with a
  step reading of 500 (four steps) and a clock reading of 1023 (divisor 1).
\<close>

theorem reverse_advance:
  assumes "play_mode s = 1"
  shows "(1 \<le> sint n \<and> sint n \<le> 8 \<and> 0 \<le> sint (step_counter s) \<and> sint (step_counter s) < 8
          \<longrightarrow> (\<exists>v. advance n r s = Inr (s\<lparr>step_counter := v\<rparr>)
                 \<and> sint v = (sint (step_counter s) - 1 + sint n) mod sint n \<and> 0 \<le> sint v))
       \<and> advance 4 r0 (s\<lparr>step_counter := 0\<rparr>) = Inr (s\<lparr>step_counter := 3\<rparr>)
       \<and> advance 4 r1 (s\<lparr>step_counter := 3\<rparr>) = Inr (s\<lparr>step_counter := 2\<rparr>)
       \<and> advance 4 r2 (s\<lparr>step_counter := 2\<rparr>) = Inr (s\<lparr>step_counter := 1\<rparr>)
       \<and> advance 4 r3 (s\<lparr>step_counter := 1\<rparr>) = Inr (s\<lparr>step_counter := 0\<rparr>)
       \<and> (is_playing s \<and> step_counter s = 0
          \<longrightarrow> tick_trace [(500, 1023, r0), (500, 1023, r1), (500, 1023, r2), (500, 1023, r3)] s
               = Inr [(True, 3), (True, 2), (True, 1), (True, 0)])"
proof -
  have general: "\<exists>v. advance n r s = Inr (s\<lparr>step_counter := v\<rparr>)
                 \<and> sint v = (sint (step_counter s) - 1 + sint n) mod sint n \<and> 0 \<le> sint v"
    if "1 \<le> sint n" "sint n \<le> 8" "0 \<le> sint (step_counter s)" "sint (step_counter s) < 8"
  proof -
    from advance_reverse [OF assms that, of r] obtain v
      where v: "advance n r s = Inr (s\<lparr>step_counter := v\<rparr>)"
        "sint v = (sint (step_counter s) - 1 + sint n) mod sint n" by blast
    then have "0 \<le> sint v" using that(1) by simp
    with v show ?thesis by blast
  qed
  have chain: "advance 4 r0 (s\<lparr>step_counter := 0\<rparr>) = Inr (s\<lparr>step_counter := 3\<rparr>)
       \<and> advance 4 r1 (s\<lparr>step_counter := 3\<rparr>) = Inr (s\<lparr>step_counter := 2\<rparr>)
       \<and> advance 4 r2 (s\<lparr>step_counter := 2\<rparr>) = Inr (s\<lparr>step_counter := 1\<rparr>)
       \<and> advance 4 r3 (s\<lparr>step_counter := 1\<rparr>) = Inr (s\<lparr>step_counter := 0\<rparr>)"
    using assms by (simp add: advance_def c_rem_def seq_def signed_modulo_int_def)
  have ticks: "tick_trace [(500, 1023, r0), (500, 1023, r1), (500, 1023, r2), (500, 1023, r3)] s
               = Inr [(True, 3), (True, 2), (True, 1), (True, 0)]"
    if "is_playing s" "step_counter s = 0"
    using assms that by (simp add: tick_eval)
  show ?thesis using general chain ticks by blast
qed

theorem reverse_advance_witness:
  "play_mode (initial\<lparr>play_mode := 1, is_playing := True\<rparr>) = 1
   \<and> 1 \<le> sint (4 :: int16) \<and> sint (4 :: int16) \<le> 8
   \<and> 0 \<le> sint (step_counter (initial\<lparr>play_mode := 1, is_playing := True\<rparr>))
   \<and> sint (step_counter (initial\<lparr>play_mode := 1, is_playing := True\<rparr>)) < 8
   \<and> (\<exists>v. advance 4 0 (initial\<lparr>play_mode := 1, is_playing := True\<rparr>)
              = Inr (initial\<lparr>play_mode := 1, is_playing := True, step_counter := v\<rparr>)
          \<and> sint v = 3)
   \<and> is_playing (initial\<lparr>play_mode := 1, is_playing := True\<rparr>)
   \<and> step_counter (initial\<lparr>play_mode := 1, is_playing := True\<rparr>) = 0
   \<and> tick_trace [(500, 1023, 0), (500, 1023, 0), (500, 1023, 0), (500, 1023, 0)]
        (initial\<lparr>play_mode := 1, is_playing := True\<rparr>)
       = Inr [(True, 3), (True, 2), (True, 1), (True, 0)]"
  using reverse_advance [of "initial\<lparr>play_mode := 1, is_playing := True\<rparr>" 4 0 0 0 0 0]
  by (simp add: initial_def)

text \<open>
  C7. In PingPong mode (\<open>play_mode = 2\<close>) with a step count of 4, starting at step 0 with
  the direction increasing, six advances give 1, 2, 3, 2, 1, 0, the direction flipping on
  arrival at step 3 and at step 0; so do six gated ticks of a playing sequencer. From any
  step in \<open>[0, 8)\<close> the step after an advance lies in \<open>[0, 3]\<close>.
\<close>

theorem pingpong_six_ticks:
  assumes "play_mode s = 2"
  shows "advance 4 r0 (s\<lparr>step_counter := 0, pingpong_direction := True\<rparr>)
           = Inr (s\<lparr>step_counter := 1, pingpong_direction := True\<rparr>)
       \<and> advance 4 r1 (s\<lparr>step_counter := 1, pingpong_direction := True\<rparr>)
           = Inr (s\<lparr>step_counter := 2, pingpong_direction := True\<rparr>)
       \<and> advance 4 r2 (s\<lparr>step_counter := 2, pingpong_direction := True\<rparr>)
           = Inr (s\<lparr>step_counter := 3, pingpong_direction := False\<rparr>)
       \<and> advance 4 r3 (s\<lparr>step_counter := 3, pingpong_direction := False\<rparr>)
           = Inr (s\<lparr>step_counter := 2, pingpong_direction := False\<rparr>)
       \<and> advance 4 r4 (s\<lparr>step_counter := 2, pingpong_direction := False\<rparr>)
           = Inr (s\<lparr>step_counter := 1, pingpong_direction := False\<rparr>)
       \<and> advance 4 r5 (s\<lparr>step_counter := 1, pingpong_direction := False\<rparr>)
           = Inr (s\<lparr>step_counter := 0, pingpong_direction := True\<rparr>)
       \<and> (is_playing s \<and> step_counter s = 0 \<and> pingpong_direction s
          \<longrightarrow> tick_trace [(500, 1023, r0), (500, 1023, r1), (500, 1023, r2),
                            (500, 1023, r3), (500, 1023, r4), (500, 1023, r5)] s
               = Inr [(True, 1), (True, 2), (True, 3), (True, 2), (True, 1), (True, 0)])
       \<and> (0 \<le> sint (step_counter s) \<and> sint (step_counter s) < 8
          \<longrightarrow> (\<exists>s'. advance 4 r s = Inr s'
                 \<and> 0 \<le> sint (step_counter s') \<and> sint (step_counter s') \<le> 3))"
proof -
  have chain: "advance 4 r0 (s\<lparr>step_counter := 0, pingpong_direction := True\<rparr>)
           = Inr (s\<lparr>step_counter := 1, pingpong_direction := True\<rparr>)
       \<and> advance 4 r1 (s\<lparr>step_counter := 1, pingpong_direction := True\<rparr>)
           = Inr (s\<lparr>step_counter := 2, pingpong_direction := True\<rparr>)
       \<and> advance 4 r2 (s\<lparr>step_counter := 2, pingpong_direction := True\<rparr>)
           = Inr (s\<lparr>step_counter := 3, pingpong_direction := False\<rparr>)
       \<and> advance 4 r3 (s\<lparr>step_counter := 3, pingpong_direction := False\<rparr>)
           = Inr (s\<lparr>step_counter := 2, pingpong_direction := False\<rparr>)
       \<and> advance 4 r4 (s\<lparr>step_counter := 2, pingpong_direction := False\<rparr>)
           = Inr (s\<lparr>step_counter := 1, pingpong_direction := False\<rparr>)
       \<and> advance 4 r5 (s\<lparr>step_counter := 1, pingpong_direction := False\<rparr>)
           = Inr (s\<lparr>step_counter := 0, pingpong_direction := True\<rparr>)"
    using assms by (simp add: advance_def constrain_def Let_def word_sle_eq word_sless_alt)
  have ticks: "tick_trace [(500, 1023, r0), (500, 1023, r1), (500, 1023, r2),
                            (500, 1023, r3), (500, 1023, r4), (500, 1023, r5)] s
               = Inr [(True, 1), (True, 2), (True, 3), (True, 2), (True, 1), (True, 0)]"
    if "is_playing s" "step_counter s = 0" "pingpong_direction s"
    using assms that by (simp add: tick_eval)
  have range: "\<exists>s'. advance 4 r s = Inr s'
                 \<and> 0 \<le> sint (step_counter s') \<and> sint (step_counter s') \<le> 3"
    if "0 \<le> sint (step_counter s)" "sint (step_counter s) < 8"
  proof -
    from advance_pingpong [OF assms _ _ that, of 4 r] obtain s'
      where "advance 4 r s = Inr s'"
        "sint (step_counter s') =
           max 0 (min (sint (4 :: int16) - 1)
             (sint (step_counter s) + (if pingpong_direction s then 1 else - 1)))" by auto
    then show ?thesis by auto
  qed
  show ?thesis using chain ticks range by blast
qed

theorem pingpong_six_ticks_witness:
  "play_mode (initial\<lparr>play_mode := 2, is_playing := True\<rparr>) = 2
   \<and> is_playing (initial\<lparr>play_mode := 2, is_playing := True\<rparr>)
   \<and> step_counter (initial\<lparr>play_mode := 2, is_playing := True\<rparr>) = 0
   \<and> pingpong_direction (initial\<lparr>play_mode := 2, is_playing := True\<rparr>)
   \<and> tick_trace [(500, 1023, 0), (500, 1023, 0), (500, 1023, 0),
                  (500, 1023, 0), (500, 1023, 0), (500, 1023, 0)]
        (initial\<lparr>play_mode := 2, is_playing := True\<rparr>)
       = Inr [(True, 1), (True, 2), (True, 3), (True, 2), (True, 1), (True, 0)]
   \<and> 0 \<le> sint (step_counter (initial\<lparr>play_mode := 2, is_playing := True\<rparr>))
   \<and> sint (step_counter (initial\<lparr>play_mode := 2, is_playing := True\<rparr>)) < 8
   \<and> (\<exists>s'. advance 4 0 (initial\<lparr>play_mode := 2, is_playing := True\<rparr>) = Inr s'
          \<and> 0 \<le> sint (step_counter s') \<and> sint (step_counter s') \<le> 3)"
  using pingpong_six_ticks [of "initial\<lparr>play_mode := 2, is_playing := True\<rparr>" 0 0 0 0 0 0 0]
  by (simp add: initial_def)

text \<open>
  C8. In every state with \<open>is_playing\<close> false, a press edge of the button (last level high,
  level read low) sets \<open>step_counter\<close> to \<open>(step_counter + 1) % 8\<close>, the 8 being
  \<open>NUM_OF_LEDS\<close>, and notifies the output at once: the eight step outputs are written for
  the new step and the built-in LED is pulsed. For a step in \<open>[0, 8)\<close> C's \<open>%\<close> is the
  mathematical \<open>mod\<close>. The button part of \<open>loop\<close> reads no potentiometer: a pass of
  \<open>loop\<close> without a MIDI message gives this result whatever the readings are.
\<close>

theorem manual_step_while_stopped:
  assumes "\<not> is_playing s" "lastButtonState s"
  shows "\<exists>v. c_rem (step_counter s + 1) 8 = Inr v
           \<and> button_poll False s =
               Inr (s\<lparr>step_counter := v, lastButtonState := False,
                     pins := (pins s)
                       (2 := v = 0, 3 := v = 1, 4 := v = 2, 5 := v = 3, 6 := v = 4,
                        7 := v = 5, 8 := v = 6, 9 := v = 7, 13 := False),
                     io_log := io_log s @ notify_events v\<rparr>)
           \<and> (midi inp = None \<and> \<not> button inp \<longrightarrow> loop inp s = button_poll False s)
           \<and> (0 \<le> sint (step_counter s) \<and> sint (step_counter s) < 8
                \<longrightarrow> sint v = (sint (step_counter s) + 1) mod 8)"
proof -
  obtain v where v: "c_rem (step_counter s + 1) 8 = Inr v"
    by (simp add: c_rem_def)
  have poll: "button_poll False s =
               Inr (s\<lparr>step_counter := v, lastButtonState := False,
                     pins := (pins s)
                       (2 := v = 0, 3 := v = 1, 4 := v = 2, 5 := v = 3, 6 := v = 4,
                        7 := v = 5, 8 := v = 6, 9 := v = 7, 13 := False),
                     io_log := io_log s @ notify_events v\<rparr>)"
    using assms v by (simp add: button_poll_def seq_def NUM_OF_LEDS_def light_up_current_step_eq)
  have lp: "midi inp = None \<and> \<not> button inp \<longrightarrow> loop inp s = button_poll False s"
    by (simp add: loop_def MIDI_read_def seq_def)
  have md: "0 \<le> sint (step_counter s) \<and> sint (step_counter s) < 8
                \<longrightarrow> sint v = (sint (step_counter s) + 1) mod 8"
  proof
    assume r: "0 \<le> sint (step_counter s) \<and> sint (step_counter s) < 8"
    have a: "sint (step_counter s + 1) = sint (step_counter s) + 1"
      using r by (subst sint_add16) simp_all
    from c_rem_nonneg [of "step_counter s + 1" 8] r a v
    show "sint v = (sint (step_counter s) + 1) mod 8" by auto
  qed
  from v poll lp md show ?thesis by (intro exI [of _ v] conjI)
qed

theorem manual_step_while_stopped_witness:
  "\<not> is_playing (initial\<lparr>step_counter := 7\<rparr>) \<and> lastButtonState (initial\<lparr>step_counter := 7\<rparr>)
   \<and> midi \<lparr>midi = None, step_pot = 0, clock_pot = 0, raw_random = 0, button = False\<rparr> = None
   \<and> \<not> button \<lparr>midi = None, step_pot = 0, clock_pot = 0, raw_random = 0, button = False\<rparr>
   \<and> 0 \<le> sint (step_counter (initial\<lparr>step_counter := 7\<rparr>))
   \<and> sint (step_counter (initial\<lparr>step_counter := 7\<rparr>)) < 8
   \<and> (\<exists>v. c_rem (step_counter (initial\<lparr>step_counter := 7\<rparr>) + 1) 8 = Inr v
         \<and> button_poll False (initial\<lparr>step_counter := 7\<rparr>) =
               Inr (initial\<lparr>step_counter := v, lastButtonState := False,
                     pins := (pins initial)
                       (2 := v = 0, 3 := v = 1, 4 := v = 2, 5 := v = 3, 6 := v = 4,
                        7 := v = 5, 8 := v = 6, 9 := v = 7, 13 := False),
                     io_log := io_log initial @ notify_events v\<rparr>)
         \<and> loop \<lparr>midi = None, step_pot = 0, clock_pot = 0, raw_random = 0, button = False\<rparr>
               (initial\<lparr>step_counter := 7\<rparr>)
             = button_poll False (initial\<lparr>step_counter := 7\<rparr>)
         \<and> sint v = 0)"
proof -
  have h: "\<not> is_playing (initial\<lparr>step_counter := 7\<rparr>)" "lastButtonState (initial\<lparr>step_counter := 7\<rparr>)"
    by (simp_all add: initial_def)
  from manual_step_while_stopped [OF h,
      of "\<lparr>midi = None, step_pot = 0, clock_pot = 0, raw_random = 0, button = False\<rparr>"]
  obtain v where v: "c_rem (step_counter (initial\<lparr>step_counter := 7\<rparr>) + 1) 8 = Inr v"
    "button_poll False (initial\<lparr>step_counter := 7\<rparr>) =
               Inr (initial\<lparr>step_counter := 7, step_counter := v, lastButtonState := False,
                     pins := (pins (initial\<lparr>step_counter := 7\<rparr>))
                       (2 := v = 0, 3 := v = 1, 4 := v = 2, 5 := v = 3, 6 := v = 4,
                        7 := v = 5, 8 := v = 6, 9 := v = 7, 13 := False),
                     io_log := io_log (initial\<lparr>step_counter := 7\<rparr>) @ notify_events v\<rparr>)"
    "loop \<lparr>midi = None, step_pot = 0, clock_pot = 0, raw_random = 0, button = False\<rparr>
               (initial\<lparr>step_counter := 7\<rparr>)
             = button_poll False (initial\<lparr>step_counter := 7\<rparr>)"
    "sint v = (sint (step_counter (initial\<lparr>step_counter := 7\<rparr>)) + 1) mod 8"
    by auto
  have "sint v = 0" using v(4) by simp
  with v(1-3) h show ?thesis by (intro conjI exI [of _ v]) simp_all
qed

text \<open>
  C9. \<open>message_stop\<close> changes \<open>is_playing\<close> (to false) and the eight step outputs (all low),
  and nothing else: \<open>step_counter\<close>, \<open>clock_counter\<close>, \<open>play_mode\<close> and
  \<open>pingpong_direction\<close> are kept, so the step position and the divider phase survive a Stop.
\<close>

theorem message_stop_frame:
  "message_stop s =
     s\<lparr>is_playing := False,
       pins := (pins s)
         (2 := False, 3 := False, 4 := False, 5 := False, 6 := False, 7 := False,
          8 := False, 9 := False),
       io_log := io_log s @ map (\<lambda>i. DigitalWrite (PIN_LED ! i) False) [0..<NUM_OF_LEDS]\<rparr>
   \<and> step_counter (message_stop s) = step_counter s
   \<and> clock_counter (message_stop s) = clock_counter s
   \<and> play_mode (message_stop s) = play_mode s
   \<and> pingpong_direction (message_stop s) = pingpong_direction s
   \<and> lastButtonState (message_stop s) = lastButtonState s
   \<and> pins (message_stop s) 13 = pins s 13
   \<and> map (pins (message_stop s)) PIN_LED
       = [False, False, False, False, False, False, False, False]
   \<and> \<not> is_playing (message_stop s)"
  by (simp add: message_stop_eq PIN_LED_def)

text \<open>
  C10. For every pair of analog readings in \<open>[0, 1023]\<close> the division index lies in
  \<open>[0, 4]\<close>, so the read of the five-element \<open>clock_division\<close> is in bounds and selects a
  positive divisor, and the mapped step count lies in \<open>[1, 8]\<close>; every \<open>%\<close> of the tick
  handler then has a positive right operand, and the handler returns a state, from every
  state and with every random draw.
\<close>

theorem message_clock_total:
  assumes "0 \<le> sint sp" "sint sp \<le> 1023" "0 \<le> sint cp" "sint cp \<le> 1023"
  shows "\<exists>n i d s'. read_step_pot_mapped sp = Inr n \<and> 1 \<le> sint n \<and> sint n \<le> 8
           \<and> read_clock_pot_mapped cp = Inr i \<and> 0 \<le> sint i \<and> sint i \<le> 4
           \<and> index clock_division i = Inr d \<and> 0 < sint d
           \<and> message_clock sp cp r s = Inr s'"
proof -
  from message_clock_eq [OF assms, of r s] obtain n i d where
    n: "read_step_pot_mapped sp = Inr n" "sint n = sint sp * 7 div 1023 + 1" and
    i: "read_clock_pot_mapped cp = Inr i" "sint i = 4 - sint cp * 4 div 1023" and
    d: "index clock_division i = Inr d" and
    m: "message_clock sp cp r s =
               (if sint (clock_counter s) mod sint d = 0
                then seq (if is_playing s then advance n r s else Inr s)
                       (\<lambda>s1. Inr ((light_up_current_step s1)\<lparr>clock_counter := clock_counter s1 + 1\<rparr>))
                else Inr (s\<lparr>clock_counter := clock_counter s + 1\<rparr>))"
    by blast
  have nr: "1 \<le> sint n" "sint n \<le> 8" using n(2) assms(1,2) by simp_all
  have ir: "0 \<le> sint i" "sint i \<le> 4" using i(2) assms(3,4) by simp_all
  from index_clock_division [OF ir] d have dpos: "0 < sint d" by auto
  have "n \<noteq> 0" using nr by auto
  from advance_total [OF this, of r s] obtain s1 where "advance n r s = Inr s1" by blast
  then have "\<exists>s'. message_clock sp cp r s = Inr s'"
    by (simp add: m seq_def)
  then show ?thesis using n(1) nr i(1) ir d dpos by blast
qed

theorem message_clock_total_witness:
  "0 \<le> sint (500 :: int16) \<and> sint (500 :: int16) \<le> 1023
   \<and> 0 \<le> sint (800 :: int16) \<and> sint (800 :: int16) \<le> 1023
   \<and> (\<exists>n i d s'. read_step_pot_mapped 500 = Inr n \<and> 1 \<le> sint n \<and> sint n \<le> 8
           \<and> read_clock_pot_mapped 800 = Inr i \<and> 0 \<le> sint i \<and> sint i \<le> 4
           \<and> index clock_division i = Inr d \<and> 0 < sint d
           \<and> message_clock 500 800 0 initial = Inr s')"
  using message_clock_total [of 500 800 0 initial] by simp

end
